theory Spec2Isabelle
  imports Complex_Main
begin

section \<open>Python values and library calls used by the monitors\<close>

text \<open>
  The two front-ends \<^verbatim>\<open>tui_monitor.py\<close> and \<^verbatim>\<open>textual_monitor.py\<close> carry the same
  \<^verbatim>\<open>FileTail\<close> and \<^verbatim>\<open>MetricsAgg\<close> classes. The definitions below follow
  \<^verbatim>\<open>tui_monitor.py\<close> for the two classes and \<^verbatim>\<open>textual_monitor.py\<close> for the pure
  function \<^verbatim>\<open>render_timeline_ascii\<close>.

  Exceptions that escape a method are values of \<open>error\<close>. \<open>NonTermination\<close> stands for a
  loop that provably never leaves its body (see \<open>backfill_loop\<close>).
\<close>

datatype error = AttributeError | KeyError | ZeroDivisionError | NonTermination

text \<open>
  Isabelle's \<open>char\<close> is an 8-bit byte, so the content of a file opened with \<^verbatim>\<open>"rb"\<close> is a
  \<open>char list\<close>. Python's \<^verbatim>\<open>str\<close> is modelled as \<open>string\<close> too; only equality of strings
  is ever used (dictionary keys and the literals of the source).
\<close>

type_synonym bytes = "char list"
type_synonym path = string

text \<open>What \<^verbatim>\<open>json.loads\<close> returns: \<^verbatim>\<open>None\<close>, \<^verbatim>\<open>bool\<close>, \<^verbatim>\<open>int\<close>, \<^verbatim>\<open>float\<close>, \<^verbatim>\<open>str\<close>,
  \<^verbatim>\<open>list\<close> or \<^verbatim>\<open>dict\<close> (the items of the dictionary, keys distinct). A float is a
  finite number (\<open>JFloat\<close>) or one of \<^verbatim>\<open>nan\<close>, \<^verbatim>\<open>inf\<close>, \<^verbatim>\<open>-inf\<close>, which the decoder
  returns for the literals \<^verbatim>\<open>NaN\<close>, \<^verbatim>\<open>Infinity\<close> and \<^verbatim>\<open>-Infinity\<close>; it accepts these
  although they are not JSON.\<close>

datatype json =
    JNull
  | JBool bool
  | JInt int
  | JFloat real
  | JNaN
  | JInfinity
  | JNegInfinity
  | JStr string
  | JArr "json list"
  | JObj "(string \<times> json) list"

text \<open>Python truthiness, as used by \<^verbatim>\<open>bool(x)\<close> and \<^verbatim>\<open>x or d\<close>.\<close>

fun truthy :: "json \<Rightarrow> bool" where
  "truthy JNull = False"
| "truthy (JBool b) = b"
| "truthy (JInt i) = (i \<noteq> 0)"
| "truthy (JFloat x) = (x \<noteq> 0)"
| "truthy JNaN = True"
| "truthy JInfinity = True"
| "truthy JNegInfinity = True"
| "truthy (JStr s) = (s \<noteq> [])"
| "truthy (JArr xs) = (xs \<noteq> [])"
| "truthy (JObj kvs) = (kvs \<noteq> [])"

definition py_or :: "json \<Rightarrow> json \<Rightarrow> json" where
  "py_or v d = (if truthy v then v else d)"

text \<open>\<^verbatim>\<open>obj.get(key)\<close> on a dictionary: the value, or \<^verbatim>\<open>None\<close> when the key is absent.\<close>

definition dict_get :: "(string \<times> json) list \<Rightarrow> string \<Rightarrow> json" where
  "dict_get kvs k = (case map_of kvs k of None \<Rightarrow> JNull | Some v \<Rightarrow> v)"

text \<open>
  The library calls whose results the monitors consume are parameters of the model:
  \<^item> \<open>json_loads\<close>: \<^verbatim>\<open>json.loads(line)\<close>, \<open>None\<close> when it raises;
  \<^item> \<open>str_other\<close>: \<^verbatim>\<open>str(v)\<close> for a value that is not already a string;
  \<^item> \<open>strptime_timestamp\<close>: \<^verbatim>\<open>datetime.strptime(ts, "%Y-%m-%dT%H:%M:%S").timestamp()\<close>
    in the local time zone, \<open>None\<close> when either call raises;
  \<^item> \<open>decode_utf8\<close>: \<^verbatim>\<open>chunk.decode("utf-8", errors="replace")\<close>, which never raises;
  \<^item> \<open>splitlines\<close>: \<^verbatim>\<open>text.splitlines()\<close>.
  Timestamps are real numbers: the float arithmetic of \<^verbatim>\<open>_bucket_start\<close> is taken as
  exact.
\<close>

record pylib =
  json_loads :: "string \<Rightarrow> json option"
  str_other :: "json \<Rightarrow> string"
  strptime_timestamp :: "string \<Rightarrow> real option"
  decode_utf8 :: "bytes \<Rightarrow> string"
  splitlines :: "string \<Rightarrow> string list"

definition py_str :: "pylib \<Rightarrow> json \<Rightarrow> string" where
  "py_str lib v = (case v of JStr s \<Rightarrow> s | _ \<Rightarrow> str_other lib v)"

text \<open>
  \<^verbatim>\<open>parse_ts\<close>: the parsed timestamp, or \<^verbatim>\<open>time.time()\<close> (the reading \<open>clk\<close>) when
  \<^verbatim>\<open>strptime\<close> raises. On an argument that is not a string \<^verbatim>\<open>strptime\<close> raises
  \<^verbatim>\<open>TypeError\<close>, which the same \<^verbatim>\<open>except\<close> catches.
\<close>

definition parse_ts :: "pylib \<Rightarrow> real \<Rightarrow> json \<Rightarrow> real" where
  "parse_ts lib clk ts =
     (case ts of
        JStr t \<Rightarrow> (case strptime_timestamp lib t of Some r \<Rightarrow> r | None \<Rightarrow> clk)
      | _ \<Rightarrow> clk)"

text \<open>\<^verbatim>\<open>x % y\<close> for a float \<open>x\<close> and an int \<open>y\<close>: the result has the sign of \<open>y\<close>.\<close>

definition py_float_mod :: "real \<Rightarrow> int \<Rightarrow> error + real" where
  "py_float_mod x y =
     (if y = 0 then Inl ZeroDivisionError
      else Inr (x - of_int y * of_int \<lfloor>x / of_int y\<rfloor>))"

text \<open>\<^verbatim>\<open>int(x)\<close> for a float truncates towards zero.\<close>

definition py_int :: "real \<Rightarrow> int" where
  "py_int x = (if 0 \<le> x then \<lfloor>x\<rfloor> else \<lceil>x\<rceil>)"

section \<open>FileTail\<close>

text \<open>
  What one poll observes of a path: the result of \<^verbatim>\<open>os.path.getsize\<close> and the result of
  opening the file and reading it to the end (\<open>read_all\<close> is the whole content at that
  moment; \<^verbatim>\<open>f.seek(pos); f.read()\<close> returns it without its first \<open>pos\<close> bytes).
\<close>

datatype 'a os_result = Returns 'a | FileNotFoundError | OtherError

record file_obs =
  getsize :: "nat os_result"
  read_all :: "bytes os_result"

type_synonym positions = "path \<rightharpoonup> nat"

text \<open>\<^verbatim>\<open>self.positions.get(path, 0)\<close>: the recorded byte offset of a path.\<close>

definition recorded_offset :: "positions \<Rightarrow> path \<Rightarrow> nat" where
  "recorded_offset positions path = (case positions path of None \<Rightarrow> 0 | Some p \<Rightarrow> p)"

text \<open>The body of the \<^verbatim>\<open>for path in files\<close> loop of \<^verbatim>\<open>read_new_lines\<close>.\<close>

definition tail_file ::
  "pylib \<Rightarrow> (path \<Rightarrow> file_obs) \<Rightarrow> path \<Rightarrow> (path \<times> string) list \<times> positions
     \<Rightarrow> (path \<times> string) list \<times> positions" where
  "tail_file lib fs path acc =
     (case acc of (lines, positions) \<Rightarrow>
       (case getsize (fs path) of
          FileNotFoundError \<Rightarrow> (lines, positions(path := None))
        | OtherError \<Rightarrow> (lines, positions)
        | Returns sz \<Rightarrow>
            (let pos0 = recorded_offset positions path;
                 pos = (if sz < pos0 then 0 else pos0)
             in if sz > pos then
                  (case read_all (fs path) of
                     FileNotFoundError \<Rightarrow> (lines, positions(path := None))
                   | OtherError \<Rightarrow> (lines, positions)
                   | Returns content \<Rightarrow>
                       (let chunk = drop pos content
                        in (lines @ map (Pair path) (splitlines lib (decode_utf8 lib chunk)),
                            positions(path \<mapsto> pos + length chunk))))
                else (lines, positions(path \<mapsto> sz)))))"

text \<open>\<^verbatim>\<open>read_new_lines\<close>; \<open>files\<close> is \<^verbatim>\<open>sorted(glob.glob(self.pattern))\<close>.\<close>

definition read_new_lines ::
  "pylib \<Rightarrow> path list \<Rightarrow> (path \<Rightarrow> file_obs) \<Rightarrow> positions
     \<Rightarrow> (path \<times> string) list \<times> positions" where
  "read_new_lines lib files fs positions = fold (tail_file lib fs) files ([], positions)"

section \<open>MetricsAgg\<close>

type_synonym bucket = "int \<times> nat \<times> nat"

text \<open>
  The counters start at 0 and are only ever incremented, so they are naturals;
  \<open>max_buckets\<close> is set once, to \<^verbatim>\<open>max(1, int(max_buckets))\<close>. \<open>tail_positions\<close> is
  \<^verbatim>\<open>self.tail.positions\<close>.
\<close>

record metrics_agg =
  tail_positions :: positions
  success :: nat
  fail :: nat
  per_region :: "string \<rightharpoonup> nat \<times> nat"
  per_instance :: "string \<rightharpoonup> nat \<times> nat"
  bucket_seconds :: int
  max_buckets :: nat
  timeline :: "bucket list"
  bucket_map :: "int \<rightharpoonup> nat \<times> nat"

definition init_agg :: "int \<Rightarrow> int \<Rightarrow> metrics_agg" where
  "init_agg bucket_secs max_b =
     \<lparr> tail_positions = Map.empty, success = 0, fail = 0,
       per_region = Map.empty, per_instance = Map.empty,
       bucket_seconds = max 1 bucket_secs, max_buckets = nat (max 1 max_b),
       timeline = [], bucket_map = Map.empty \<rparr>"

text \<open>\<^verbatim>\<open>_bucket_start\<close>: \<^verbatim>\<open>int(ts - (ts % self.bucket_seconds))\<close>.\<close>

definition bucket_start :: "metrics_agg \<Rightarrow> real \<Rightarrow> error + int" where
  "bucket_start self ts =
     (case py_float_mod ts (bucket_seconds self) of
        Inl e \<Rightarrow> Inl e
      | Inr r \<Rightarrow> Inr (py_int (ts - r)))"

text \<open>The eviction loop of \<^verbatim>\<open>_ensure_bucket\<close>: \<^verbatim>\<open>popleft\<close> while the deque is too long.\<close>

fun evict ::
  "nat \<Rightarrow> bucket list \<Rightarrow> (int \<rightharpoonup> nat \<times> nat) \<Rightarrow> bucket list \<times> (int \<rightharpoonup> nat \<times> nat)" where
  "evict m [] bm = ([], bm)"
| "evict m (x # xs) bm =
     (if m < length (x # xs) then evict m xs (bm(fst x := None)) else (x # xs, bm))"

definition ensure_bucket :: "int \<Rightarrow> metrics_agg \<Rightarrow> metrics_agg" where
  "ensure_bucket b self =
     (if bucket_map self b = None then
        (case evict (max_buckets self) (timeline self @ [(b, 0, 0)])
                ((bucket_map self)(b \<mapsto> (0, 0))) of
           (tl', bm') \<Rightarrow> self\<lparr>timeline := tl', bucket_map := bm'\<rparr>)
      else self)"

text \<open>
  The loop of \<^verbatim>\<open>ensure_buckets_to\<close>: \<^verbatim>\<open>while b < target_b: b += w; _ensure_bucket(b)\<close>.
  With \<open>w \<le> 0\<close> and \<open>b < target_b\<close> the test stays true for ever (\<open>b\<close> does not grow and
  \<^verbatim>\<open>_ensure_bucket\<close> leaves the width alone): the model returns \<open>NonTermination\<close>.
\<close>

function backfill_loop :: "int \<Rightarrow> int \<Rightarrow> metrics_agg \<Rightarrow> error + metrics_agg" where
  "backfill_loop target_b b self =
     (if b < target_b then
        (if bucket_seconds self \<le> 0 then Inl NonTermination
         else backfill_loop target_b (b + bucket_seconds self)
                (ensure_bucket (b + bucket_seconds self) self))
      else Inr self)"
  by pat_completeness auto
termination
  by (relation "measure (\<lambda>(t, b, s). nat (t - b))") auto

declare backfill_loop.simps [simp del]

definition ensure_buckets_to :: "real \<Rightarrow> metrics_agg \<Rightarrow> error + metrics_agg" where
  "ensure_buckets_to now_ts self =
     (if timeline self = [] then
        (case bucket_start self now_ts of
           Inl e \<Rightarrow> Inl e
         | Inr b \<Rightarrow> Inr (ensure_bucket b self))
      else
        (let last_b = fst (last (timeline self))
         in case bucket_start self now_ts of
              Inl e \<Rightarrow> Inl e
            | Inr target_b \<Rightarrow> backfill_loop target_b last_b self))"

text \<open>\<^verbatim>\<open>d[key]["success"] += 1\<close> or \<^verbatim>\<open>d[key]["fail"] += 1\<close> on a \<^verbatim>\<open>defaultdict\<close>.\<close>

definition bump :: "bool \<Rightarrow> (string \<rightharpoonup> nat \<times> nat) \<Rightarrow> string \<Rightarrow> (string \<rightharpoonup> nat \<times> nat)" where
  "bump ok d k =
     (case (case d k of None \<Rightarrow> (0, 0) | Some c \<Rightarrow> c) of
        (s, f) \<Rightarrow> d(k \<mapsto> (if ok then (s + 1, f) else (s, f + 1))))"

text \<open>The \<^verbatim>\<open>for idx in range(len(self.timeline))\<close> loop of \<^verbatim>\<open>update\<close>: the first tuple
  whose start is \<open>b\<close> is replaced, then \<^verbatim>\<open>break\<close>.\<close>

fun sync_timeline :: "int \<Rightarrow> nat \<times> nat \<Rightarrow> bucket list \<Rightarrow> bucket list" where
  "sync_timeline b sf [] = []"
| "sync_timeline b sf (x # xs) =
     (if fst x = b then (b, fst sf, snd sf) # xs else x # sync_timeline b sf xs)"

text \<open>The body of the \<^verbatim>\<open>for _path, line in ...\<close> loop of \<^verbatim>\<open>update\<close>, in its three
  parts: the totals and per-category counters; the bucket of the record (the increment of
  \<^verbatim>\<open>self.bucket_map[b]\<close> raises \<^verbatim>\<open>KeyError\<close> when \<open>b\<close> is not a key); and the whole body.
  \<open>clk\<close> is what \<^verbatim>\<open>time.time()\<close> returns while this line is processed.\<close>

definition count_record :: "bool \<Rightarrow> string \<Rightarrow> string \<Rightarrow> metrics_agg \<Rightarrow> metrics_agg" where
  "count_record ok inst reg self =
     self\<lparr> success := success self + (if ok then 1 else 0),
           fail := fail self + (if ok then 0 else 1),
           per_instance := bump ok (per_instance self) inst,
           per_region := bump ok (per_region self) reg \<rparr>"

definition bucket_record :: "bool \<Rightarrow> int \<Rightarrow> metrics_agg \<Rightarrow> error + metrics_agg" where
  "bucket_record ok b self =
     (let s2 = ensure_bucket b self
      in case bucket_map s2 b of
           None \<Rightarrow> Inl KeyError
         | Some (s, f) \<Rightarrow>
             (let sf = (if ok then (s + 1, f) else (s, f + 1))
              in Inr (s2\<lparr> bucket_map := (bucket_map s2)(b \<mapsto> sf),
                           timeline := sync_timeline b sf (timeline s2) \<rparr>)))"

definition update_line :: "pylib \<Rightarrow> real \<Rightarrow> string \<Rightarrow> metrics_agg \<Rightarrow> error + metrics_agg" where
  "update_line lib clk line self =
     (case json_loads lib line of
        None \<Rightarrow> Inr self
      | Some (JObj kvs) \<Rightarrow>
          (let ok = truthy (dict_get kvs ''success'');
               inst = py_str lib (py_or (dict_get kvs ''instance_id'') (JStr ''unknown''));
               reg = py_str lib (py_or (dict_get kvs ''batch_region'') (JStr ''unknown''));
               s1 = count_record ok inst reg self;
               ts = parse_ts lib clk (py_or (dict_get kvs ''ts'') (JStr []))
           in case bucket_start s1 ts of
                Inl e \<Rightarrow> Inl e
              | Inr b \<Rightarrow> bucket_record ok b s1)
      | Some _ \<Rightarrow> Inl AttributeError)"

fun update_lines :: "pylib \<Rightarrow> (string \<times> real) list \<Rightarrow> metrics_agg \<Rightarrow> error + metrics_agg" where
  "update_lines lib [] self = Inr self"
| "update_lines lib ((line, clk) # rest) self =
     (case update_line lib clk line self of
        Inl e \<Rightarrow> Inl e
      | Inr self' \<Rightarrow> update_lines lib rest self')"

text \<open>\<^verbatim>\<open>MetricsAgg.update\<close>: one poll of the tailer, then the loop over its lines.
  \<open>clock i\<close> is the reading of \<^verbatim>\<open>time.time()\<close> while line \<open>i\<close> of the poll is processed.\<close>

definition update ::
  "pylib \<Rightarrow> path list \<Rightarrow> (path \<Rightarrow> file_obs) \<Rightarrow> (nat \<Rightarrow> real) \<Rightarrow> metrics_agg
     \<Rightarrow> error + metrics_agg" where
  "update lib files fs clock self =
     (case read_new_lines lib files fs (tail_positions self) of
        (lines, positions') \<Rightarrow>
          update_lines lib (zip (map snd lines) (map clock [0..<length lines]))
            (self\<lparr>tail_positions := positions'\<rparr>))"

definition set_bucket_seconds :: "int \<Rightarrow> metrics_agg \<Rightarrow> metrics_agg" where
  "set_bucket_seconds sec self =
     self\<lparr> bucket_seconds := max 1 sec, timeline := [], bucket_map := Map.empty \<rparr>"

section \<open>Sequences of calls\<close>

text \<open>
  The three public methods of \<^verbatim>\<open>MetricsAgg\<close> as operations; \<open>run\<close> performs a sequence
  of them and stops at the first exception, as the dashboards do (nothing in
  \<^verbatim>\<open>TUI.loop\<close> or \<^verbatim>\<open>MonitorApp._tick\<close> catches it).
\<close>

datatype op =
    Update "path list" "path \<Rightarrow> file_obs" "nat \<Rightarrow> real"
  | EnsureTo real
  | SetBucket int

fun step :: "pylib \<Rightarrow> op \<Rightarrow> metrics_agg \<Rightarrow> error + metrics_agg" where
  "step lib (Update files fs clock) self = update lib files fs clock self"
| "step lib (EnsureTo now_ts) self = ensure_buckets_to now_ts self"
| "step lib (SetBucket sec) self = Inr (set_bucket_seconds sec self)"

fun run :: "pylib \<Rightarrow> op list \<Rightarrow> metrics_agg \<Rightarrow> error + metrics_agg" where
  "run lib [] self = Inr self"
| "run lib (a # as) self =
     (case step lib a self of
        Inl e \<Rightarrow> Inl e
      | Inr self' \<Rightarrow> run lib as self')"

section \<open>Properties of the timeline\<close>

text \<open>Consecutive bucket starts differ by exactly \<open>w\<close>.\<close>

fun contiguous :: "int \<Rightarrow> bucket list \<Rightarrow> bool" where
  "contiguous w [] = True"
| "contiguous w [x] = True"
| "contiguous w (x # y # zs) = (fst y = fst x + w \<and> contiguous w (y # zs))"

text \<open>The lookup index and the deque hold the same bucket starts, each once, within the
  bound; the width and the bound are at least 1.\<close>

definition agg_inv :: "metrics_agg \<Rightarrow> bool" where
  "agg_inv self =
     (1 \<le> bucket_seconds self \<and> 1 \<le> max_buckets self \<and>
      length (timeline self) \<le> max_buckets self \<and>
      dom (bucket_map self) = fst ` set (timeline self) \<and>
      distinct (map fst (timeline self)))"

text \<open>
  A record arrives in order when its bucket is already in the index, or the timeline is
  empty, or its bucket is the one right after the last bucket.
\<close>

definition in_order :: "metrics_agg \<Rightarrow> int \<Rightarrow> bool" where
  "in_order self b =
     (bucket_map self b \<noteq> None \<or> timeline self = [] \<or>
      b = fst (last (timeline self)) + bucket_seconds self)"

text \<open>The timestamp \<^verbatim>\<open>update\<close> computes for a line, when the line decodes to a
  dictionary.\<close>

definition line_ts :: "pylib \<Rightarrow> real \<Rightarrow> string \<Rightarrow> real option" where
  "line_ts lib clk line =
     (case json_loads lib line of
        Some (JObj kvs) \<Rightarrow> Some (parse_ts lib clk (py_or (dict_get kvs ''ts'') (JStr [])))
      | _ \<Rightarrow> None)"

definition line_in_order :: "pylib \<Rightarrow> real \<Rightarrow> string \<Rightarrow> metrics_agg \<Rightarrow> bool" where
  "line_in_order lib clk line self =
     (case line_ts lib clk line of
        None \<Rightarrow> True
      | Some ts \<Rightarrow> (case bucket_start self ts of Inl e \<Rightarrow> True | Inr b \<Rightarrow> in_order self b))"

fun lines_in_order :: "pylib \<Rightarrow> (string \<times> real) list \<Rightarrow> metrics_agg \<Rightarrow> bool" where
  "lines_in_order lib [] self = True"
| "lines_in_order lib ((line, clk) # rest) self =
     (line_in_order lib clk line self \<and>
      (case update_line lib clk line self of
         Inl e \<Rightarrow> True
       | Inr self' \<Rightarrow> lines_in_order lib rest self'))"

fun op_in_order :: "pylib \<Rightarrow> op \<Rightarrow> metrics_agg \<Rightarrow> bool" where
  "op_in_order lib (Update files fs clock) self =
     (case read_new_lines lib files fs (tail_positions self) of
        (lines, positions') \<Rightarrow>
          lines_in_order lib (zip (map snd lines) (map clock [0..<length lines]))
            (self\<lparr>tail_positions := positions'\<rparr>))"
| "op_in_order lib (EnsureTo now_ts) self = True"
| "op_in_order lib (SetBucket sec) self = True"

fun ops_in_order :: "pylib \<Rightarrow> op list \<Rightarrow> metrics_agg \<Rightarrow> bool" where
  "ops_in_order lib [] self = True"
| "ops_in_order lib (a # as) self =
     (op_in_order lib a self \<and>
      (case step lib a self of
         Inl e \<Rightarrow> True
       | Inr self' \<Rightarrow> ops_in_order lib as self'))"

text \<open>The per-category success and fail counts, 0 for a category never seen.\<close>

definition cat_success :: "(string \<rightharpoonup> nat \<times> nat) \<Rightarrow> string \<Rightarrow> nat" where
  "cat_success d k = (case d k of None \<Rightarrow> 0 | Some (s, f) \<Rightarrow> s)"

definition cat_fail :: "(string \<rightharpoonup> nat \<times> nat) \<Rightarrow> string \<Rightarrow> nat" where
  "cat_fail d k = (case d k of None \<Rightarrow> 0 | Some (s, f) \<Rightarrow> f)"

section \<open>ASCII timeline\<close>

text \<open>\<^verbatim>\<open>render_timeline_ascii\<close> of \<^verbatim>\<open>textual_monitor.py\<close>. The quotient \<^verbatim>\<open>v / maxv\<close> is
  taken as exact.\<close>

definition chars :: string where
  "chars = '' .:-=+*#%@''"

text \<open>\<^verbatim>\<open>s.ljust(n)\<close> and \<^verbatim>\<open>sep.join(rows)\<close>.\<close>

definition ljust :: "string \<Rightarrow> int \<Rightarrow> string" where
  "ljust s n = s @ replicate (nat n - length s) (CHR '' '')"

fun str_join :: "string \<Rightarrow> string list \<Rightarrow> string" where
  "str_join sep [] = []"
| "str_join sep [r] = r"
| "str_join sep (r # r' # rs) = r @ sep @ str_join sep (r' # rs)"

text \<open>\<^verbatim>\<open>int((len(chars) - 1) * (v / maxv)) if maxv else 0\<close>\<close>

definition density_index :: "nat \<Rightarrow> nat \<Rightarrow> nat" where
  "density_index v maxv =
     (if maxv \<noteq> 0 then nat (py_int (real (length chars - 1) * (real v / real maxv))) else 0)"

text \<open>\<^verbatim>\<open>'S' if s and not f else chars[idx]\<close> and \<^verbatim>\<open>'F' if f and not s else ' '\<close>\<close>

definition s_glyph :: "nat \<Rightarrow> bucket \<Rightarrow> char" where
  "s_glyph maxv bk =
     (case bk of (b, s, f) \<Rightarrow>
        if s \<noteq> 0 \<and> \<not> f \<noteq> 0 then CHR ''S'' else chars ! density_index (s + f) maxv)"

definition f_glyph :: "bucket \<Rightarrow> char" where
  "f_glyph bk =
     (case bk of (b, s, f) \<Rightarrow> if f \<noteq> 0 \<and> \<not> s \<noteq> 0 then CHR ''F'' else CHR '' '')"

text \<open>The buckets drawn: \<^verbatim>\<open>data[-max(1, width - 2):]\<close>.\<close>

definition visible :: "bucket list \<Rightarrow> int \<Rightarrow> bucket list" where
  "visible data width = drop (length data - nat (max 1 (width - 2))) data"

definition window_max :: "bucket list \<Rightarrow> nat" where
  "window_max data = max 1 (Max (set (map (\<lambda>(b, s, f). s + f) data)))"

definition render_timeline_ascii :: "metrics_agg \<Rightarrow> int \<Rightarrow> int \<Rightarrow> string" where
  "render_timeline_ascii metrics width height =
     (if timeline metrics = [] then ''(no data)''
      else
        (let data = visible (timeline metrics) width;
             maxv = window_max data;
             s_line = map (s_glyph maxv) data;
             f_line = map f_glyph data;
             out = [ljust s_line (width - 1)] @
                   (if 2 \<le> height then [ljust f_line (width - 1)] else [])
         in str_join [CHR 0x0A] out))"

section \<open>Sample inputs\<close>

text \<open>Metrics lines as the worker writes them, a line that is not JSON, a line that
  is JSON but not an object, and two lines that are not JSON but that \<^verbatim>\<open>json.loads\<close>
  accepts: a record whose \<^verbatim>\<open>success\<close> is the literal \<^verbatim>\<open>NaN\<close>, and the bare literal.\<close>

definition rec_a :: string where
  \<open>rec_a = ''{"ts": "2024-01-01T00:00:00", "success": true, "instance_id": "a", "batch_region": "r1"}''\<close>

definition rec_b :: string where
  \<open>rec_b = ''{"ts": "2024-01-01T00:00:05", "success": false, "instance_id": "b", "batch_region": "r1"}''\<close>

definition rec_next :: string where
  \<open>rec_next = ''{"ts": "2024-01-01T00:00:12", "success": true, "instance_id": "a", "batch_region": "r1"}''\<close>

definition rec_late :: string where
  \<open>rec_late = ''{"ts": "2024-01-01T00:01:40", "success": true, "instance_id": "a", "batch_region": "r1"}''\<close>

definition rec_bare :: string where
  \<open>rec_bare = ''{"instance_id": "c", "success": null}''\<close>

definition not_json :: string where
  "not_json = ''Traceback (most recent call last):''"

definition json_list :: string where
  "json_list = ''[1, 2]''"

definition rec_nan :: string where
  \<open>rec_nan = ''{"ts": "2024-01-01T00:00:00", "success": NaN, "instance_id": "a", "batch_region": "r1"}''\<close>

definition nan_line :: string where
  "nan_line = ''NaN''"

definition mk_record :: "string \<Rightarrow> bool \<Rightarrow> string \<Rightarrow> string \<Rightarrow> json" where
  "mk_record ts ok inst reg =
     JObj [(''ts'', JStr ts), (''success'', JBool ok), (''instance_id'', JStr inst),
           (''batch_region'', JStr reg)]"

definition demo_loads :: "string \<Rightarrow> json option" where
  "demo_loads line =
     (if line = rec_a then Some (mk_record ''2024-01-01T00:00:00'' True ''a'' ''r1'')
      else if line = rec_b then Some (mk_record ''2024-01-01T00:00:05'' False ''b'' ''r1'')
      else if line = rec_next then Some (mk_record ''2024-01-01T00:00:12'' True ''a'' ''r1'')
      else if line = rec_late then Some (mk_record ''2024-01-01T00:01:40'' True ''a'' ''r1'')
      else if line = rec_bare then Some (JObj [(''instance_id'', JStr ''c''), (''success'', JNull)])
      else if line = json_list then Some (JArr [JInt 1, JInt 2])
      else if line = rec_nan then
        Some (JObj [(''ts'', JStr ''2024-01-01T00:00:00''), (''success'', JNaN),
                    (''instance_id'', JStr ''a''), (''batch_region'', JStr ''r1'')])
      else if line = nan_line then Some JNaN
      else None)"

text \<open>Seconds since the epoch, for a process whose local time zone is UTC.\<close>

definition demo_strptime :: "string \<Rightarrow> real option" where
  "demo_strptime ts =
     (if ts = ''2024-01-01T00:00:00'' then Some 1704067200
      else if ts = ''2024-01-01T00:00:05'' then Some 1704067205
      else if ts = ''2024-01-01T00:00:12'' then Some 1704067212
      else if ts = ''2024-01-01T00:01:40'' then Some 1704067300
      else None)"

text \<open>\<^verbatim>\<open>splitlines\<close> on a text whose only line boundary is the line feed.\<close>

fun split_lf :: "string \<Rightarrow> string \<Rightarrow> string list" where
  "split_lf cur [] = (if cur = [] then [] else [cur])"
| "split_lf cur (c # cs) =
     (if c = CHR 0x0A then cur # split_lf [] cs else split_lf (cur @ [c]) cs)"

definition demo_lib :: pylib where
  "demo_lib =
     \<lparr> json_loads = demo_loads, str_other = (\<lambda>v. ''?''),
       strptime_timestamp = demo_strptime,
       decode_utf8 = (\<lambda>chunk. chunk), splitlines = split_lf [] \<rparr>"

text \<open>A directory holding one readable file \<^verbatim>\<open>m.jsonl\<close> with the given content.\<close>

definition one_file :: "bytes \<Rightarrow> path \<Rightarrow> file_obs" where
  "one_file content p =
     (if p = ''m.jsonl'' then \<lparr> getsize = Returns (length content), read_all = Returns content \<rparr>
      else \<lparr> getsize = FileNotFoundError, read_all = FileNotFoundError \<rparr>)"

definition file_of_lines :: "string list \<Rightarrow> bytes" where
  "file_of_lines ls = concat (map (\<lambda>l. l @ [CHR 0x0A]) ls)"

text \<open>One call of \<^verbatim>\<open>update\<close> that finds the given lines appended to \<^verbatim>\<open>m.jsonl\<close>, which
  it has not read before; the clock reads \<open>now\<close> throughout.\<close>

definition sample_poll :: "string list \<Rightarrow> real \<Rightarrow> op" where
  "sample_poll ls now = Update [''m.jsonl''] (one_file (file_of_lines ls)) (\<lambda>i. now)"

text \<open>No total and no per-category counter of \<open>a\<close> is larger than in \<open>b\<close>.\<close>

definition counters_le :: "metrics_agg \<Rightarrow> metrics_agg \<Rightarrow> bool" where
  "counters_le a b =
     (success a \<le> success b \<and> fail a \<le> fail b \<and>
      (\<forall>k. cat_success (per_instance a) k \<le> cat_success (per_instance b) k) \<and>
      (\<forall>k. cat_fail (per_instance a) k \<le> cat_fail (per_instance b) k) \<and>
      (\<forall>k. cat_success (per_region a) k \<le> cat_success (per_region b) k) \<and>
      (\<forall>k. cat_fail (per_region a) k \<le> cat_fail (per_region b) k))"

text \<open>The \<open>k\<close> empty buckets after the bucket that starts at \<open>L\<close>:
  \<open>(L + w, 0, 0), (L + 2 * w, 0, 0), \<dots>, (L + k * w, 0, 0)\<close>.\<close>

definition empty_buckets :: "int \<Rightarrow> int \<Rightarrow> nat \<Rightarrow> bucket list" where
  "empty_buckets L w k = map (\<lambda>i. (L + int i * w, 0, 0)) [1..<Suc k]"

section \<open>Evaluation of the sample inputs\<close>

lemmas demo_defs =
  demo_lib_def demo_loads_def demo_strptime_def one_file_def file_of_lines_def
  rec_a_def rec_b_def rec_next_def rec_late_def rec_bare_def not_json_def json_list_def
  rec_nan_def nan_line_def
  mk_record_def sample_poll_def

lemmas eval_defs =
  update_def read_new_lines_def tail_file_def recorded_offset_def update_line_def count_record_def
  bucket_record_def ensure_bucket_def bucket_start_def py_float_mod_def py_int_def
  bump_def dict_get_def py_or_def py_str_def parse_ts_def ensure_buckets_to_def
  set_bucket_seconds_def init_agg_def Let_def backfill_loop.simps

section \<open>Changing the bucket width\<close>

text \<open>
  C5. For every aggregator state and every requested width, \<^verbatim>\<open>set_bucket_seconds\<close>
  empties the timeline deque and the lookup index, and leaves total success, total fail
  and both per-category maps as they were.
\<close>

theorem set_bucket_seconds_clears_timeline_keeps_counters:
  "timeline (set_bucket_seconds w self) = [] \<and>
   bucket_map (set_bucket_seconds w self) = Map.empty \<and>
   success (set_bucket_seconds w self) = success self \<and>
   fail (set_bucket_seconds w self) = fail self \<and>
   per_instance (set_bucket_seconds w self) = per_instance self \<and>
   per_region (set_bucket_seconds w self) = per_region self"
  by (simp add: set_bucket_seconds_def)

section \<open>Lines that are not JSON\<close>

text \<open>
  C4, as the specification states it, fails: \<^verbatim>\<open>update\<close> skips the lines on which
  \<^verbatim>\<open>json.loads\<close> raises, and the decoder accepts some lines that are not JSON. A record
  whose \<^verbatim>\<open>success\<close> is the literal \<^verbatim>\<open>NaN\<close> is decoded and counted (as a success, since
  \<^verbatim>\<open>bool(nan)\<close> is true): total success, the counters of its instance and region and the
  timeline all change. The bare line \<^verbatim>\<open>NaN\<close> is decoded to a float, and \<^verbatim>\<open>obj.get\<close> raises
  \<^verbatim>\<open>AttributeError\<close> outside the \<^verbatim>\<open>try\<close>.
\<close>

theorem invalid_json_accepted_by_decoder_counterexample:
  "success (init_agg 10 72) = 0 \<and> timeline (init_agg 10 72) = [] \<and>
   \<not> isl (update_line demo_lib 7 rec_nan (init_agg 10 72)) \<and>
   success (projr (update_line demo_lib 7 rec_nan (init_agg 10 72))) = 1 \<and>
   cat_success (per_instance (projr (update_line demo_lib 7 rec_nan (init_agg 10 72)))) ''a'' = 1 \<and>
   cat_success (per_region (projr (update_line demo_lib 7 rec_nan (init_agg 10 72)))) ''r1'' = 1 \<and>
   timeline (projr (update_line demo_lib 7 rec_nan (init_agg 10 72))) = [(1704067200, 1, 0)] \<and>
   update_line demo_lib 7 nan_line (init_agg 10 72) = Inl AttributeError"
  by (simp add: eval_defs demo_defs cat_success_def)

text \<open>
  C4, amended. A line on which \<^verbatim>\<open>json.loads\<close> raises is skipped: processing it raises
  nothing and returns the aggregator exactly as it was (totals, per-category counters,
  timeline and every other field), and the rest of the poll goes on as if the line were
  not there.
\<close>

theorem update_skips_invalid_json:
  assumes "json_loads lib line = None"
  shows "update_line lib clk line self = Inr self \<and>
         update_lines lib ((line, clk) # rest) self = update_lines lib rest self"
  using assms by (simp add: update_line_def)

theorem update_skips_invalid_json_witness:
  "json_loads demo_lib not_json = None \<and>
   update_line demo_lib 7 not_json (init_agg 10 72) = Inr (init_agg 10 72) \<and>
   update_lines demo_lib [(not_json, 7)] (init_agg 10 72) = Inr (init_agg 10 72)"
proof -
  have h: "json_loads demo_lib not_json = None"
    by (simp add: demo_defs)
  show ?thesis
    using h update_skips_invalid_json [OF h, of 7 "init_agg 10 72" "[]"] by simp
qed

text \<open>
  A line that is valid JSON but not an object is not skipped: \<^verbatim>\<open>obj.get\<close> raises
  \<^verbatim>\<open>AttributeError\<close> outside the \<^verbatim>\<open>try\<close>, and \<^verbatim>\<open>update\<close> does not return.
\<close>

lemma update_line_non_object:
  assumes "json_loads lib line = Some v" and "\<forall>kvs. v \<noteq> JObj kvs"
  shows "update_line lib clk line self = Inl AttributeError"
  using assms by (cases v) (simp_all add: update_line_def)

lemma update_line_json_list:
  "update_line demo_lib 7 json_list (init_agg 10 72) = Inl AttributeError"
  by (simp add: update_line_def demo_defs)

section \<open>The eviction loop and bucket creation\<close>

lemma evict_timeline: "fst (evict m bs bm) = drop (length bs - m) bs"
proof (induction bs arbitrary: bm)
  case Nil
  show ?case by simp
next
  case (Cons x xs)
  show ?case
  proof (cases "m < length (x # xs)")
    case True
    then have "length (x # xs) - m = Suc (length xs - m)" by simp
    with True Cons show ?thesis by simp
  next
    case False
    then show ?thesis by simp
  qed
qed

lemma evict_map:
  "snd (evict m bs bm) = (\<lambda>k. if k \<in> fst ` set (take (length bs - m) bs) then None else bm k)"
proof (induction bs arbitrary: bm)
  case Nil
  show ?case by simp
next
  case (Cons x xs)
  show ?case
  proof (cases "m < length (x # xs)")
    case True
    then have e: "length (x # xs) - m = Suc (length xs - m)" by simp
    have "snd (evict m (x # xs) bm) = snd (evict m xs (bm(fst x := None)))"
      using True by simp
    also have "\<dots> = (\<lambda>k. if k \<in> fst ` set (take (length xs - m) xs) then None
                          else (bm(fst x := None)) k)"
      by (rule Cons.IH)
    also have "\<dots> = (\<lambda>k. if k \<in> fst ` set (take (length (x # xs) - m) (x # xs)) then None
                          else bm k)"
      unfolding e by (rule ext) simp
    finally show ?thesis .
  next
    case False
    then show ?thesis by simp
  qed
qed

lemma bucket_start_floor:
  assumes "bucket_seconds self \<noteq> 0"
  shows "bucket_start self ts = Inr (bucket_seconds self * \<lfloor>ts / real_of_int (bucket_seconds self)\<rfloor>)"
proof -
  let ?w = "bucket_seconds self"
  have "ts - (ts - real_of_int ?w * real_of_int \<lfloor>ts / real_of_int ?w\<rfloor>)
        = real_of_int (?w * \<lfloor>ts / real_of_int ?w\<rfloor>)"
    by simp
  then have "py_int (ts - (ts - real_of_int ?w * real_of_int \<lfloor>ts / real_of_int ?w\<rfloor>))
        = ?w * \<lfloor>ts / real_of_int ?w\<rfloor>"
    unfolding py_int_def by (simp only: floor_of_int ceiling_of_int if_cancel)
  then show ?thesis
    using assms by (simp add: bucket_start_def py_float_mod_def)
qed


lemma image_drop_distinct:
  assumes "distinct (map f xs)"
  shows "f ` set xs - f ` set (take n xs) = f ` set (drop n xs)"
proof -
  have "distinct (map f (take n xs) @ map f (drop n xs))"
    using assms by (simp flip: map_append)
  then have "f ` set (take n xs) \<inter> f ` set (drop n xs) = {}"
    by simp
  moreover have "f ` set xs = f ` set (take n xs) \<union> f ` set (drop n xs)"
    by (metis append_take_drop_id image_Un set_append)
  ultimately show ?thesis by blast
qed

lemma ensure_bucket_old: "bucket_map self b \<noteq> None \<Longrightarrow> ensure_bucket b self = self"
  by (auto simp: ensure_bucket_def)

lemma dom_remove_keys: "dom (\<lambda>k. if k \<in> A then None else m k) = dom m - A"
  by (auto simp: dom_def split: if_splits)

lemma ensure_bucket_new:
  assumes "bucket_map self b = None"
  shows "ensure_bucket b self =
     self\<lparr> timeline := drop (Suc (length (timeline self)) - max_buckets self)
                         (timeline self @ [(b, 0, 0)]),
           bucket_map := (\<lambda>k. if k \<in> fst ` set (take (Suc (length (timeline self)) - max_buckets self)
                                                      (timeline self @ [(b, 0, 0)]))
                                then None else ((bucket_map self)(b \<mapsto> (0, 0))) k) \<rparr>"
proof -
  let ?bs = "timeline self @ [(b, 0, 0)]" and ?bm = "(bucket_map self)(b \<mapsto> (0, 0))"
  have "evict (max_buckets self) ?bs ?bm
        = (fst (evict (max_buckets self) ?bs ?bm), snd (evict (max_buckets self) ?bs ?bm))"
    by simp
  then show ?thesis
    using assms unfolding evict_timeline evict_map
    by (simp add: ensure_bucket_def)
qed

lemma ensure_bucket_frame [simp]:
  "bucket_seconds (ensure_bucket b self) = bucket_seconds self"
  "max_buckets (ensure_bucket b self) = max_buckets self"
  "success (ensure_bucket b self) = success self"
  "fail (ensure_bucket b self) = fail self"
  "per_instance (ensure_bucket b self) = per_instance self"
  "per_region (ensure_bucket b self) = per_region self"
  "tail_positions (ensure_bucket b self) = tail_positions self"
  by (cases "bucket_map self b = None"; simp add: ensure_bucket_new ensure_bucket_old)+

lemma ensure_bucket_inv:
  assumes "agg_inv self"
  shows "agg_inv (ensure_bucket b self)"
proof (cases "bucket_map self b = None")
  case False
  with assms show ?thesis by (simp add: ensure_bucket_old)
next
  case True
  let ?n = "Suc (length (timeline self)) - max_buckets self"
  let ?bs = "timeline self @ [(b, 0, 0)]"
  from assms have dom_eq: "dom (bucket_map self) = fst ` set (timeline self)"
    and dist: "distinct (map fst (timeline self))"
    and len: "length (timeline self) \<le> max_buckets self"
    and m1: "1 \<le> max_buckets self" and w1: "1 \<le> bucket_seconds self"
    by (simp_all add: agg_inv_def)
  from True dom_eq have fresh: "b \<notin> fst ` set (timeline self)"
    by (metis domIff)
  then have dist': "distinct (map fst ?bs)"
    using dist by simp
  have "dom ((bucket_map self)(b \<mapsto> (0, 0))) = fst ` set ?bs"
    using dom_eq by simp
  then have "dom (\<lambda>k. if k \<in> fst ` set (take ?n ?bs) then None
                  else ((bucket_map self)(b \<mapsto> (0, 0))) k)
        = fst ` set ?bs - fst ` set (take ?n ?bs)"
    using dom_remove_keys [of "fst ` set (take ?n ?bs)" "(bucket_map self)(b \<mapsto> (0, 0))"]
    by simp
  also have "\<dots> = fst ` set (drop ?n ?bs)"
    using dist' by (rule image_drop_distinct)
  finally have d: "dom (\<lambda>k. if k \<in> fst ` set (take ?n ?bs) then None
                  else ((bucket_map self)(b \<mapsto> (0, 0))) k) = fst ` set (drop ?n ?bs)" .
  have l: "length (drop ?n ?bs) \<le> max_buckets self"
    using len by simp
  have "distinct (drop ?n (map fst ?bs))"
    using dist' by (rule distinct_drop)
  then have "distinct (map fst (drop ?n ?bs))"
    by (simp only: drop_map)
  with d l m1 w1 show ?thesis
    unfolding ensure_bucket_new [OF True] agg_inv_def by simp
qed

lemma ensure_bucket_indexed:
  assumes "agg_inv self"
  shows "bucket_map (ensure_bucket b self) b \<noteq> None"
proof (cases "bucket_map self b = None")
  case False
  then show ?thesis by (simp add: ensure_bucket_old)
next
  case True
  let ?n = "Suc (length (timeline self)) - max_buckets self"
  from assms have dom_eq: "dom (bucket_map self) = fst ` set (timeline self)"
    and m1: "1 \<le> max_buckets self"
    by (simp_all add: agg_inv_def)
  from True dom_eq have fresh: "b \<notin> fst ` set (timeline self)"
    by (metis domIff)
  have "?n \<le> length (timeline self)" using m1 by simp
  then have "take ?n (timeline self @ [(b, 0, 0)]) = take ?n (timeline self)"
    by simp
  then have "b \<notin> fst ` set (take ?n (timeline self @ [(b, 0, 0)]))"
    using fresh by (metis image_mono in_mono set_take_subset)
  then show ?thesis
    unfolding ensure_bucket_new [OF True] by simp
qed

section \<open>One record of a poll\<close>

lemma sync_timeline_starts [simp]: "map fst (sync_timeline b sf bs) = map fst bs"
  by (induction bs) auto

lemma sync_timeline_length [simp]: "length (sync_timeline b sf bs) = length bs"
  by (induction bs) auto

lemma sync_timeline_set_starts [simp]: "fst ` set (sync_timeline b sf bs) = fst ` set bs"
proof -
  have "set (map fst (sync_timeline b sf bs)) = set (map fst bs)"
    by (simp only: sync_timeline_starts)
  then show ?thesis by (simp only: set_map)
qed

lemma sync_timeline_Nil [simp]: "sync_timeline b sf bs = [] \<longleftrightarrow> bs = []"
  by (cases bs) auto

lemma sync_timeline_last [simp]: "fst (last (sync_timeline b sf bs)) = fst (last bs)"
  by (induction bs) auto

lemma count_record_frame [simp]:
  "bucket_seconds (count_record ok inst reg self) = bucket_seconds self"
  "max_buckets (count_record ok inst reg self) = max_buckets self"
  "timeline (count_record ok inst reg self) = timeline self"
  "bucket_map (count_record ok inst reg self) = bucket_map self"
  "tail_positions (count_record ok inst reg self) = tail_positions self"
  by (simp_all add: count_record_def)

lemma count_record_inv [simp]: "agg_inv (count_record ok inst reg self) = agg_inv self"
  by (simp add: agg_inv_def)

lemma bucket_start_count_record [simp]:
  "bucket_start (count_record ok inst reg self) ts = bucket_start self ts"
  by (simp add: bucket_start_def)

lemma bucket_record_result:
  assumes "agg_inv self"
  shows "\<exists>s f. bucket_map (ensure_bucket b self) b = Some (s, f) \<and>
           bucket_record ok b self =
             Inr ((ensure_bucket b self)
                    \<lparr> bucket_map := (bucket_map (ensure_bucket b self))
                                       (b \<mapsto> (if ok then (s + 1, f) else (s, f + 1))),
                      timeline := sync_timeline b (if ok then (s + 1, f) else (s, f + 1))
                                    (timeline (ensure_bucket b self)) \<rparr>)"
proof -
  from ensure_bucket_indexed [OF assms]
  obtain s f where "bucket_map (ensure_bucket b self) b = Some (s, f)"
    by fastforce
  then show ?thesis
    by (simp add: bucket_record_def Let_def)
qed

lemma bucket_record_frame:
  assumes "bucket_record ok b self = Inr s'"
  shows "bucket_seconds s' = bucket_seconds self" "max_buckets s' = max_buckets self"
    "success s' = success self" "fail s' = fail self"
    "per_instance s' = per_instance self" "per_region s' = per_region self"
    "tail_positions s' = tail_positions self"
    "map fst (timeline s') = map fst (timeline (ensure_bucket b self))"
  using assms
  by (auto simp: bucket_record_def Let_def split: option.splits prod.splits)

lemma bucket_record_inv:
  assumes "agg_inv self" and "bucket_record ok b self = Inr s'"
  shows "agg_inv s'"
proof -
  let ?e = "ensure_bucket b self"
  have inv: "agg_inv ?e" using assms(1) by (rule ensure_bucket_inv)
  from bucket_record_result [OF assms(1), of b ok] assms(2)
  obtain s f where bm: "bucket_map ?e b = Some (s, f)"
    and s': "s' = ?e\<lparr> bucket_map := (bucket_map ?e)(b \<mapsto> (if ok then (s + 1, f) else (s, f + 1))),
                      timeline := sync_timeline b (if ok then (s + 1, f) else (s, f + 1))
                                    (timeline ?e) \<rparr>"
    by auto
  from bm have "b \<in> dom (bucket_map ?e)" by blast
  then have "insert b (dom (bucket_map ?e)) = dom (bucket_map ?e)" by blast
  with inv show ?thesis
    unfolding s' agg_inv_def by (simp del: fun_upd_apply)
qed

lemma update_line_result:
  assumes "agg_inv self"
  shows "(json_loads lib line = None \<and> update_line lib clk line self = Inr self) \<or>
         (\<exists>v. json_loads lib line = Some v \<and> (\<forall>kvs. v \<noteq> JObj kvs) \<and>
              update_line lib clk line self = Inl AttributeError) \<or>
         (\<exists>kvs b s'. json_loads lib line = Some (JObj kvs) \<and>
              line_ts lib clk line = Some (parse_ts lib clk (py_or (dict_get kvs ''ts'') (JStr []))) \<and>
              bucket_start self (parse_ts lib clk (py_or (dict_get kvs ''ts'') (JStr []))) = Inr b \<and>
              bucket_record (truthy (dict_get kvs ''success'')) b
                (count_record (truthy (dict_get kvs ''success''))
                   (py_str lib (py_or (dict_get kvs ''instance_id'') (JStr ''unknown'')))
                   (py_str lib (py_or (dict_get kvs ''batch_region'') (JStr ''unknown''))) self)
                = Inr s' \<and>
              update_line lib clk line self = Inr s')"
proof (cases "json_loads lib line")
  case None
  then show ?thesis by (simp add: update_line_def)
next
  case (Some v)
  show ?thesis
  proof (cases "\<exists>kvs. v = JObj kvs")
    case False
    with Some have "update_line lib clk line self = Inl AttributeError"
      by (cases v) (simp_all add: update_line_def)
    with Some False show ?thesis by simp
  next
    case True
    then obtain kvs where v: "v = JObj kvs" ..
    let ?ts = "parse_ts lib clk (py_or (dict_get kvs ''ts'') (JStr []))"
    let ?ok = "truthy (dict_get kvs ''success'')"
    let ?s1 = "count_record ?ok
                   (py_str lib (py_or (dict_get kvs ''instance_id'') (JStr ''unknown'')))
                   (py_str lib (py_or (dict_get kvs ''batch_region'') (JStr ''unknown''))) self"
    from assms have "bucket_seconds self \<noteq> 0" by (simp add: agg_inv_def)
    then obtain b where b: "bucket_start self ?ts = Inr b"
      using bucket_start_floor by blast
    have "agg_inv ?s1" using assms by simp
    from bucket_record_result [OF this, of b ?ok]
    obtain s' where s': "bucket_record ?ok b ?s1 = Inr s'" by blast
    have "update_line lib clk line self = Inr s'"
      using Some v b s' by (simp add: update_line_def Let_def)
    moreover have "line_ts lib clk line = Some ?ts"
      using Some v by (simp add: line_ts_def)
    ultimately show ?thesis using Some v b s' by blast
  qed
qed

section \<open>The invariant of the aggregator\<close>

lemma update_line_inv:
  assumes "agg_inv self" and "update_line lib clk line self = Inr s'"
  shows "agg_inv s'"
  using update_line_result [OF assms(1), of lib line clk] assms
  by (auto dest: bucket_record_inv [rotated])

lemma update_lines_inv:
  assumes "agg_inv self" and "update_lines lib ls self = Inr s'"
  shows "agg_inv s'"
  using assms
proof (induction ls arbitrary: self)
  case Nil
  then show ?case by simp
next
  case (Cons l ls)
  obtain line clk where l: "l = (line, clk)" by (cases l)
  with Cons.prems(2) obtain s1 where s1: "update_line lib clk line self = Inr s1"
    and rest: "update_lines lib ls s1 = Inr s'"
    by (auto split: sum.splits)
  from Cons.prems(1) s1 have "agg_inv s1" by (rule update_line_inv)
  then show ?case using rest by (rule Cons.IH)
qed

lemma agg_inv_tail_positions [simp]:
  "agg_inv (self\<lparr>tail_positions := p\<rparr>) = agg_inv self"
  by (simp add: agg_inv_def)

lemma update_inv:
  assumes "agg_inv self" and "update lib files fs clock self = Inr s'"
  shows "agg_inv s'"
proof -
  obtain lines p where r: "read_new_lines lib files fs (tail_positions self) = (lines, p)"
    by (cases "read_new_lines lib files fs (tail_positions self)")
  with assms(2) have
    "update_lines lib (zip (map snd lines) (map clock [0..<length lines]))
       (self\<lparr>tail_positions := p\<rparr>) = Inr s'"
    by (simp add: update_def)
  moreover have "agg_inv (self\<lparr>tail_positions := p\<rparr>)"
    using assms(1) by simp
  ultimately show ?thesis by (rule update_lines_inv [rotated])
qed

lemma backfill_loop_inv:
  assumes "agg_inv self"
  shows "\<exists>s'. backfill_loop target_b b self = Inr s' \<and> agg_inv s'"
  using assms
proof (induction target_b b self rule: backfill_loop.induct)
  case (1 target_b b self)
  show ?case
  proof (cases "b < target_b")
    case False
    with "1.prems" show ?thesis by (simp add: backfill_loop.simps [of target_b b self])
  next
    case True
    from "1.prems" have w: "\<not> bucket_seconds self \<le> 0"
      by (simp add: agg_inv_def)
    have "agg_inv (ensure_bucket (b + bucket_seconds self) self)"
      using "1.prems" by (rule ensure_bucket_inv)
    from "1.IH" [OF True w this] True w show ?thesis
      by (simp add: backfill_loop.simps [of target_b b self])
  qed
qed

lemma ensure_buckets_to_inv:
  assumes "agg_inv self"
  shows "\<exists>s'. ensure_buckets_to now_ts self = Inr s' \<and> agg_inv s'"
proof -
  from assms have "bucket_seconds self \<noteq> 0" by (simp add: agg_inv_def)
  then obtain b where b: "bucket_start self now_ts = Inr b"
    using bucket_start_floor by blast
  show ?thesis
  proof (cases "timeline self = []")
    case True
    with b assms show ?thesis
      by (simp add: ensure_buckets_to_def ensure_bucket_inv)
  next
    case False
    with b backfill_loop_inv [OF assms] show ?thesis
      by (simp add: ensure_buckets_to_def Let_def)
  qed
qed

lemma set_bucket_seconds_inv:
  assumes "1 \<le> max_buckets self"
  shows "agg_inv (set_bucket_seconds sec self)"
  using assms by (simp add: set_bucket_seconds_def agg_inv_def)

lemma init_agg_inv: "agg_inv (init_agg w m)"
  by (simp add: init_agg_def agg_inv_def)

lemma step_inv:
  assumes "agg_inv self" and "step lib a self = Inr s'"
  shows "agg_inv s'"
proof (cases a)
  case (Update files fs clock)
  with assms show ?thesis by (auto intro: update_inv)
next
  case (EnsureTo now_ts)
  with assms ensure_buckets_to_inv [OF assms(1), of now_ts] show ?thesis by auto
next
  case (SetBucket sec)
  from assms(1) have "1 \<le> max_buckets self" by (simp add: agg_inv_def)
  with SetBucket assms(2) show ?thesis by (auto intro: set_bucket_seconds_inv)
qed

lemma run_inv:
  assumes "agg_inv self" and "run lib ops self = Inr s'"
  shows "agg_inv s'"
  using assms
proof (induction ops arbitrary: self)
  case Nil
  then show ?case by simp
next
  case (Cons a ops)
  from Cons.prems(2) obtain s1 where s1: "step lib a self = Inr s1"
    and rest: "run lib ops s1 = Inr s'"
    by (auto split: sum.splits)
  from Cons.prems(1) s1 have "agg_inv s1" by (rule step_inv)
  then show ?case using rest by (rule Cons.IH)
qed

section \<open>Bounded timeline and consistent index\<close>

text \<open>
  C2. In every state the aggregator reaches from its constructor by calls of
  \<^verbatim>\<open>update\<close>, \<^verbatim>\<open>ensure_buckets_to\<close> and \<^verbatim>\<open>set_bucket_seconds\<close>, the timeline holds at most
  \<open>max_buckets\<close> buckets and the keys of \<^verbatim>\<open>bucket_map\<close> are exactly the bucket starts in
  the timeline. The eviction loop is first-in first-out on both structures: it drops the
  oldest entries of the deque and removes exactly their keys from the index.
\<close>

theorem timeline_bounded_and_index_consistent:
  assumes "run lib ops (init_agg w m) = Inr self"
  shows "length (timeline self) \<le> max_buckets self \<and>
         dom (bucket_map self) = fst ` set (timeline self) \<and>
         fst (evict n bs bm) = drop (length bs - n) bs \<and>
         dom (snd (evict n bs bm)) = dom bm - fst ` set (take (length bs - n) bs)"
proof -
  have "agg_inv self"
    using init_agg_inv assms by (rule run_inv)
  then show ?thesis
    by (simp add: agg_inv_def evict_timeline evict_map dom_remove_keys)
qed

theorem timeline_bounded_and_index_consistent_witness:
  "\<not> isl (run demo_lib [sample_poll [rec_a, rec_b] 0, EnsureTo 1704067225.5] (init_agg 10 2)) \<and>
   timeline (projr (run demo_lib [sample_poll [rec_a, rec_b] 0, EnsureTo 1704067225.5]
                      (init_agg 10 2)))
     = [(1704067210, 0, 0), (1704067220, 0, 0)] \<and>
   max_buckets (projr (run demo_lib [sample_poll [rec_a, rec_b] 0, EnsureTo 1704067225.5]
                      (init_agg 10 2))) = 2 \<and>
   dom (bucket_map (projr (run demo_lib [sample_poll [rec_a, rec_b] 0, EnsureTo 1704067225.5]
                      (init_agg 10 2)))) = {1704067210, 1704067220}"
proof -
  let ?r = "run demo_lib [sample_poll [rec_a, rec_b] 0, EnsureTo 1704067225.5] (init_agg 10 2)"
  have r: "\<not> isl ?r"
    by (simp add: eval_defs demo_defs)
  have t: "timeline (projr ?r) = [(1704067210, 0, 0), (1704067220, 0, 0)]"
    by (simp add: eval_defs demo_defs)
  have m: "max_buckets (projr ?r) = 2"
    by (simp add: eval_defs demo_defs)
  from r have "?r = Inr (projr ?r)" by simp
  from timeline_bounded_and_index_consistent [OF this] t
  have "dom (bucket_map (projr ?r)) = {1704067210, 1704067220}"
    by simp
  with r t m show ?thesis by blast
qed

section \<open>Counters only grow\<close>

lemma counters_le_refl [simp]: "counters_le a a"
  by (simp add: counters_le_def)

lemma counters_le_trans: "counters_le a b \<Longrightarrow> counters_le b c \<Longrightarrow> counters_le a c"
  unfolding counters_le_def by (meson le_trans)

lemma bump_success_mono: "cat_success d k \<le> cat_success (bump ok d k') k"
  by (auto simp: cat_success_def bump_def split: option.splits prod.splits)

lemma bump_fail_mono: "cat_fail d k \<le> cat_fail (bump ok d k') k"
  by (auto simp: cat_fail_def bump_def split: option.splits prod.splits)

lemma count_record_mono: "counters_le self (count_record ok inst reg self)"
  by (simp add: counters_le_def count_record_def bump_success_mono bump_fail_mono)

lemma counters_le_cong:
  assumes "success b = success a" "fail b = fail a"
    "per_instance b = per_instance a" "per_region b = per_region a"
  shows "counters_le a b" "counters_le c a \<Longrightarrow> counters_le c b"
  using assms by (simp_all add: counters_le_def)

lemma ensure_bucket_mono: "counters_le self (ensure_bucket b self)"
  by (rule counters_le_cong) simp_all

lemma bucket_record_mono:
  assumes "bucket_record ok b self = Inr s'"
  shows "counters_le self s'"
  using bucket_record_frame [OF assms] by (intro counters_le_cong(1)) simp_all

lemma update_line_mono:
  assumes "update_line lib clk line self = Inr s'"
  shows "counters_le self s'"
proof (cases "json_loads lib line")
  case None
  with assms show ?thesis by (simp add: update_line_def)
next
  case (Some v)
  show ?thesis
  proof (cases v)
    case (JObj kvs)
    let ?ok = "truthy (dict_get kvs ''success'')"
    let ?s1 = "count_record ?ok
                   (py_str lib (py_or (dict_get kvs ''instance_id'') (JStr ''unknown'')))
                   (py_str lib (py_or (dict_get kvs ''batch_region'') (JStr ''unknown''))) self"
    from assms Some JObj obtain b where "bucket_record ?ok b ?s1 = Inr s'"
      by (auto simp: update_line_def Let_def split: sum.splits)
    then have "counters_le ?s1 s'" by (rule bucket_record_mono)
    with count_record_mono show ?thesis by (rule counters_le_trans)
  qed (use assms Some in \<open>simp_all add: update_line_def\<close>)
qed

lemma update_lines_mono:
  assumes "update_lines lib ls self = Inr s'"
  shows "counters_le self s'"
  using assms
proof (induction ls arbitrary: self)
  case Nil
  then show ?case by simp
next
  case (Cons l ls)
  obtain line clk where l: "l = (line, clk)" by (cases l)
  with Cons.prems obtain s1 where s1: "update_line lib clk line self = Inr s1"
    and rest: "update_lines lib ls s1 = Inr s'"
    by (auto split: sum.splits)
  from s1 have "counters_le self s1" by (rule update_line_mono)
  moreover from rest have "counters_le s1 s'" by (rule Cons.IH)
  ultimately show ?case by (rule counters_le_trans)
qed

lemma update_mono:
  assumes "update lib files fs clock self = Inr s'"
  shows "counters_le self s'"
proof -
  obtain lines p where r: "read_new_lines lib files fs (tail_positions self) = (lines, p)"
    by (cases "read_new_lines lib files fs (tail_positions self)")
  with assms have
    "update_lines lib (zip (map snd lines) (map clock [0..<length lines]))
       (self\<lparr>tail_positions := p\<rparr>) = Inr s'"
    by (simp add: update_def)
  then have "counters_le (self\<lparr>tail_positions := p\<rparr>) s'" by (rule update_lines_mono)
  then show ?thesis by (simp add: counters_le_def)
qed

lemma backfill_loop_mono:
  assumes "backfill_loop target_b b self = Inr s'"
  shows "counters_le self s'"
  using assms
proof (induction target_b b self rule: backfill_loop.induct)
  case (1 target_b b self)
  show ?case
  proof (cases "b < target_b")
    case False
    with "1.prems" show ?thesis by (simp add: backfill_loop.simps [of target_b b self])
  next
    case True
    with "1.prems" have w: "\<not> bucket_seconds self \<le> 0"
      and r: "backfill_loop target_b (b + bucket_seconds self)
                (ensure_bucket (b + bucket_seconds self) self) = Inr s'"
      by (auto simp: backfill_loop.simps [of target_b b self] split: if_splits)
    from "1.IH" [OF True w r] have "counters_le (ensure_bucket (b + bucket_seconds self) self) s'" .
    with ensure_bucket_mono show ?thesis by (rule counters_le_trans)
  qed
qed

lemma ensure_buckets_to_mono:
  assumes "ensure_buckets_to now_ts self = Inr s'"
  shows "counters_le self s'"
  using assms
  by (auto simp: ensure_buckets_to_def Let_def ensure_bucket_mono
           split: if_splits sum.splits dest: backfill_loop_mono)

lemma set_bucket_seconds_mono: "counters_le self (set_bucket_seconds sec self)"
  by (simp add: counters_le_def set_bucket_seconds_def)

lemma step_mono:
  assumes "step lib a self = Inr s'"
  shows "counters_le self s'"
  using assms
  by (cases a) (auto intro: update_mono ensure_buckets_to_mono set_bucket_seconds_mono)

lemma run_mono:
  assumes "run lib ops self = Inr s'"
  shows "counters_le self s'"
  using assms
proof (induction ops arbitrary: self)
  case Nil
  then show ?case by simp
next
  case (Cons a ops)
  from Cons.prems obtain s1 where s1: "step lib a self = Inr s1"
    and rest: "run lib ops s1 = Inr s'"
    by (auto split: sum.splits)
  from s1 have "counters_le self s1" by (rule step_mono)
  moreover from rest have "counters_le s1 s'" by (rule Cons.IH)
  ultimately show ?case by (rule counters_le_trans)
qed

text \<open>
  C6. Across any sequence of \<^verbatim>\<open>update\<close> polls, \<^verbatim>\<open>ensure_buckets_to\<close> and
  \<^verbatim>\<open>set_bucket_seconds\<close> calls, from any aggregator state, total success plus total fail
  does not decrease, and neither does total success, total fail or any per-instance or
  per-region success or fail counter.
\<close>

theorem totals_and_categories_never_decrease:
  assumes "run lib ops self = Inr s'"
  shows "success self + fail self \<le> success s' + fail s' \<and>
         success self \<le> success s' \<and> fail self \<le> fail s' \<and>
         (\<forall>k. cat_success (per_instance self) k \<le> cat_success (per_instance s') k \<and>
              cat_fail (per_instance self) k \<le> cat_fail (per_instance s') k \<and>
              cat_success (per_region self) k \<le> cat_success (per_region s') k \<and>
              cat_fail (per_region self) k \<le> cat_fail (per_region s') k)"
proof -
  from assms have "counters_le self s'" by (rule run_mono)
  then show ?thesis
    unfolding counters_le_def by (simp add: add_mono)
qed

theorem totals_and_categories_never_decrease_witness:
  "\<not> isl (run demo_lib [sample_poll [rec_a, rec_b] 0, SetBucket 5, EnsureTo 1704067225.5,
                         sample_poll [rec_a, rec_b, rec_bare] 1704067226]
            (init_agg 10 72)) \<and>
   success (projr (run demo_lib [sample_poll [rec_a, rec_b] 0, SetBucket 5, EnsureTo 1704067225.5,
                         sample_poll [rec_a, rec_b, rec_bare] 1704067226]
            (init_agg 10 72))) = 1 \<and>
   fail (projr (run demo_lib [sample_poll [rec_a, rec_b] 0, SetBucket 5, EnsureTo 1704067225.5,
                         sample_poll [rec_a, rec_b, rec_bare] 1704067226]
            (init_agg 10 72))) = 2 \<and>
   success (init_agg 10 72) + fail (init_agg 10 72)
     \<le> success (projr (run demo_lib [sample_poll [rec_a, rec_b] 0, SetBucket 5,
                         EnsureTo 1704067225.5, sample_poll [rec_a, rec_b, rec_bare] 1704067226]
            (init_agg 10 72)))
       + fail (projr (run demo_lib [sample_poll [rec_a, rec_b] 0, SetBucket 5,
                         EnsureTo 1704067225.5, sample_poll [rec_a, rec_b, rec_bare] 1704067226]
            (init_agg 10 72)))"
proof -
  let ?r = "run demo_lib [sample_poll [rec_a, rec_b] 0, SetBucket 5, EnsureTo 1704067225.5,
                         sample_poll [rec_a, rec_b, rec_bare] 1704067226] (init_agg 10 72)"
  have r: "\<not> isl ?r"
    by (simp add: eval_defs demo_defs)
  have s: "success (projr ?r) = 1"
    by (simp add: eval_defs demo_defs)
  have f: "fail (projr ?r) = 2"
    by (simp add: eval_defs demo_defs)
  from r have "?r = Inr (projr ?r)" by simp
  from totals_and_categories_never_decrease [OF this]
  have "success (init_agg 10 72) + fail (init_agg 10 72) \<le> success (projr ?r) + fail (projr ?r)"
    by blast
  with r s f show ?thesis by blast
qed

section \<open>Records without a truthy success field\<close>

lemma bump_fail_same: "cat_fail (bump False d k) k = cat_fail d k + 1"
  by (auto simp: cat_fail_def bump_def split: option.splits prod.splits)

lemma bump_success_same: "cat_success (bump True d k) k = cat_success d k + 1"
  by (auto simp: cat_success_def bump_def split: option.splits prod.splits)

text \<open>
  C10. A line that \<^verbatim>\<open>json.loads\<close> turns into a dictionary whose \<^verbatim>\<open>success\<close> entry is
  absent, \<^verbatim>\<open>null\<close> or \<^verbatim>\<open>false\<close> is counted as a failure, not dropped: from a state that
  satisfies the aggregator's invariant the loop body returns, total fail has grown by one,
  total success is unchanged, and the fail counts of the record's instance and of its
  region have each grown by one.
\<close>

theorem falsy_success_counts_as_failure:
  assumes "agg_inv self"
    and "json_loads lib line = Some (JObj kvs)"
    and "map_of kvs ''success'' = None \<or> map_of kvs ''success'' = Some JNull \<or>
         map_of kvs ''success'' = Some (JBool False)"
  shows "\<exists>s'. update_line lib clk line self = Inr s' \<and>
           fail s' = fail self + 1 \<and> success s' = success self \<and>
           cat_fail (per_instance s')
               (py_str lib (py_or (dict_get kvs ''instance_id'') (JStr ''unknown'')))
             = cat_fail (per_instance self)
               (py_str lib (py_or (dict_get kvs ''instance_id'') (JStr ''unknown''))) + 1 \<and>
           cat_fail (per_region s')
               (py_str lib (py_or (dict_get kvs ''batch_region'') (JStr ''unknown'')))
             = cat_fail (per_region self)
               (py_str lib (py_or (dict_get kvs ''batch_region'') (JStr ''unknown''))) + 1"
proof -
  let ?inst = "py_str lib (py_or (dict_get kvs ''instance_id'') (JStr ''unknown''))"
  let ?reg = "py_str lib (py_or (dict_get kvs ''batch_region'') (JStr ''unknown''))"
  from assms(3) have ok: "truthy (dict_get kvs ''success'') = False"
    by (auto simp: dict_get_def)
  from update_line_result [OF assms(1), of lib line clk] assms(2) ok
  obtain b s' where br: "bucket_record False b (count_record False ?inst ?reg self) = Inr s'"
    and u: "update_line lib clk line self = Inr s'"
    by auto
  note fr = bucket_record_frame [OF br]
  have "fail s' = fail self + 1" "success s' = success self"
    using fr(3,4) by (simp_all add: count_record_def)
  moreover have "cat_fail (per_instance s') ?inst = cat_fail (per_instance self) ?inst + 1"
    using fr(5) by (simp add: count_record_def bump_fail_same)
  moreover have "cat_fail (per_region s') ?reg = cat_fail (per_region self) ?reg + 1"
    using fr(6) by (simp add: count_record_def bump_fail_same)
  ultimately show ?thesis using u by blast
qed

theorem falsy_success_counts_as_failure_witness:
  "agg_inv (init_agg 10 72) \<and>
   json_loads demo_lib rec_bare = Some (JObj [(''instance_id'', JStr ''c''), (''success'', JNull)]) \<and>
   map_of [(''instance_id'', JStr ''c''), (''success'', JNull)] ''success'' = Some JNull \<and>
   \<not> isl (update_line demo_lib 1704067226 rec_bare (init_agg 10 72)) \<and>
   fail (projr (update_line demo_lib 1704067226 rec_bare (init_agg 10 72))) = 1 \<and>
   success (projr (update_line demo_lib 1704067226 rec_bare (init_agg 10 72))) = 0 \<and>
   cat_fail (per_instance (projr (update_line demo_lib 1704067226 rec_bare (init_agg 10 72)))) ''c''
     = 1 \<and>
   cat_fail (per_region (projr (update_line demo_lib 1704067226 rec_bare (init_agg 10 72))))
     ''unknown'' = 1"
proof -
  let ?kvs = "[(''instance_id'', JStr ''c''), (''success'', JNull)]"
  have i: "agg_inv (init_agg 10 72)" by (rule init_agg_inv)
  have l: "json_loads demo_lib rec_bare = Some (JObj ?kvs)"
    by (simp add: demo_defs)
  have m: "map_of ?kvs ''success'' = Some JNull" by simp
  then have m': "map_of ?kvs ''success'' = None \<or> map_of ?kvs ''success'' = Some JNull \<or>
         map_of ?kvs ''success'' = Some (JBool False)" by blast
  have z: "fail (init_agg 10 72) = 0" "success (init_agg 10 72) = 0"
    "cat_fail (per_instance (init_agg 10 72)) k = 0"
    "cat_fail (per_region (init_agg 10 72)) k = 0" for k
    by (simp_all add: init_agg_def cat_fail_def)
  have n: "py_str demo_lib (py_or (dict_get ?kvs ''instance_id'') (JStr ''unknown'')) = ''c''"
    "py_str demo_lib (py_or (dict_get ?kvs ''batch_region'') (JStr ''unknown'')) = ''unknown''"
    by (simp_all add: py_str_def py_or_def dict_get_def)
  from falsy_success_counts_as_failure [OF i l m', of 1704067226]
  show ?thesis
    unfolding n z using i l m by auto
qed

section \<open>Contiguous timelines\<close>

lemma contiguous_Cons:
  "contiguous w (x # bs) \<longleftrightarrow> (bs = [] \<or> (fst (hd bs) = fst x + w \<and> contiguous w bs))"
  by (cases bs) auto

lemma contiguous_snoc:
  "contiguous w (bs @ [x]) \<longleftrightarrow> contiguous w bs \<and> (bs \<noteq> [] \<longrightarrow> fst x = fst (last bs) + w)"
proof (induction w bs rule: contiguous.induct)
  case (1 w)
  show ?case by simp
next
  case (2 w y)
  show ?case by simp
next
  case (3 w a b zs)
  then show ?case by auto
qed

lemma contiguous_tl: "contiguous w bs \<Longrightarrow> contiguous w (tl bs)"
  by (cases bs) (auto simp: contiguous_Cons)

lemma contiguous_drop: "contiguous w bs \<Longrightarrow> contiguous w (drop n bs)"
proof (induction n arbitrary: bs)
  case 0
  then show ?case by simp
next
  case (Suc n)
  then show ?case
    by (cases bs) (auto simp: contiguous_Cons)
qed

lemma contiguous_starts:
  "map fst bs = map fst bs' \<Longrightarrow> contiguous w bs = contiguous w bs'"
proof (induction w bs arbitrary: bs' rule: contiguous.induct)
  case (1 w)
  then show ?case by simp
next
  case (2 w x)
  then show ?case by (cases bs') auto
next
  case (3 w x y zs)
  from "3.prems" obtain x' y' zs' where bs': "bs' = x' # y' # zs'"
    and e: "fst x = fst x'" "fst y = fst y'" "map fst zs = map fst zs'"
    by (cases bs'; cases "tl bs'") auto
  from e have "map fst (y # zs) = map fst (y' # zs')" by simp
  from "3.IH" [OF this] e bs' show ?case by simp
qed

lemma contiguous_le_last:
  assumes "contiguous w bs" and "0 \<le> w" and "x \<in> set bs"
  shows "fst x \<le> fst (last bs)"
  using assms
proof (induction w bs arbitrary: x rule: contiguous.induct)
  case (1 w)
  then show ?case by simp
next
  case (2 w y)
  then show ?case by simp
next
  case (3 w a b zs)
  from "3.prems"(1) have c: "contiguous w (b # zs)" and ab: "fst b = fst a + w"
    by simp_all
  have l: "last (a # b # zs) = last (b # zs)" by simp
  show ?case
  proof (cases "x = a")
    case True
    have "fst b \<le> fst (last (b # zs))"
      using c "3.prems"(2) by (rule "3.IH") simp
    with ab "3.prems"(2) have "fst a \<le> fst (last (b # zs))" by linarith
    then show ?thesis unfolding l True .
  next
    case False
    with "3.prems"(3) have "x \<in> set (b # zs)" by simp
    with c "3.prems"(2) show ?thesis unfolding l by (rule "3.IH")
  qed
qed

lemma contiguous_sorted:
  assumes "contiguous w bs" and "1 \<le> w"
  shows "sorted_wrt (<) (map fst bs)"
  using assms
proof (induction w bs rule: contiguous.induct)
  case (1 w)
  then show ?case by simp
next
  case (2 w y)
  then show ?case by simp
next
  case (3 w a b zs)
  then have s: "sorted_wrt (<) (map fst (b # zs))" and ab: "fst a < fst b" by auto
  then have "\<forall>y \<in> set (map fst (b # zs)). fst a < y" by fastforce
  with s show ?case by simp
qed

section \<open>Contiguity is kept by backfilling and by records that arrive in order\<close>

lemma ensure_bucket_contiguous:
  assumes "agg_inv self" and "contiguous (bucket_seconds self) (timeline self)"
    and "in_order self b"
  shows "contiguous (bucket_seconds self) (timeline (ensure_bucket b self))"
proof (cases "bucket_map self b = None")
  case False
  with assms(2) show ?thesis by (simp add: ensure_bucket_old)
next
  case True
  with assms(3) have "timeline self = [] \<or> b = fst (last (timeline self)) + bucket_seconds self"
    by (simp add: in_order_def)
  with assms(2) have "contiguous (bucket_seconds self) (timeline self @ [(b, 0, 0)])"
    by (auto simp: contiguous_snoc)
  then have "contiguous (bucket_seconds self)
               (drop (Suc (length (timeline self)) - max_buckets self)
                  (timeline self @ [(b, 0, 0)]))"
    by (rule contiguous_drop)
  then show ?thesis
    unfolding ensure_bucket_new [OF True] by (simp del: drop_append)
qed

lemma ensure_bucket_new_last:
  assumes "agg_inv self" and "bucket_map self b = None"
  shows "timeline (ensure_bucket b self) \<noteq> [] \<and> fst (last (timeline (ensure_bucket b self))) = b"
proof -
  let ?n = "Suc (length (timeline self)) - max_buckets self"
  from assms(1) have "1 \<le> max_buckets self" by (simp add: agg_inv_def)
  then have n: "?n < length (timeline self @ [(b, 0, 0)])" by simp
  then have "drop ?n (timeline self @ [(b, 0, 0)]) \<noteq> []"
    by (simp only: drop_eq_Nil not_le)
  moreover have "last (drop ?n (timeline self @ [(b, 0, 0)])) = last (timeline self @ [(b, 0, 0)])"
    using n by (rule last_drop)
  ultimately show ?thesis
    unfolding ensure_bucket_new [OF assms(2)] by simp
qed

lemma in_order_count_record [simp]:
  "in_order (count_record ok inst reg self) b = in_order self b"
  by (simp add: in_order_def)

lemma bucket_record_contiguous:
  assumes "agg_inv self" and "contiguous (bucket_seconds self) (timeline self)"
    and "in_order self b" and "bucket_record ok b self = Inr s'"
  shows "contiguous (bucket_seconds s') (timeline s')"
proof -
  note fr = bucket_record_frame [OF assms(4)]
  have "contiguous (bucket_seconds self) (timeline (ensure_bucket b self))"
    using assms(1-3) by (rule ensure_bucket_contiguous)
  then show ?thesis
    using contiguous_starts [OF fr(8)] fr(1) by simp
qed

lemma update_line_contiguous:
  assumes "agg_inv self" and "contiguous (bucket_seconds self) (timeline self)"
    and "line_in_order lib clk line self" and "update_line lib clk line self = Inr s'"
  shows "contiguous (bucket_seconds s') (timeline s')"
proof -
  from update_line_result [OF assms(1), of lib line clk] assms(4)
  consider "s' = self"
    | kvs b where "line_ts lib clk line = Some (parse_ts lib clk (py_or (dict_get kvs ''ts'') (JStr [])))"
        "bucket_start self (parse_ts lib clk (py_or (dict_get kvs ''ts'') (JStr []))) = Inr b"
        "bucket_record (truthy (dict_get kvs ''success'')) b
                (count_record (truthy (dict_get kvs ''success''))
                   (py_str lib (py_or (dict_get kvs ''instance_id'') (JStr ''unknown'')))
                   (py_str lib (py_or (dict_get kvs ''batch_region'') (JStr ''unknown''))) self)
                = Inr s'"
    by auto
  then show ?thesis
  proof cases
    case 1
    with assms(2) show ?thesis by simp
  next
    case 2
    from assms(3) 2(1,2) have io: "in_order self b"
      by (simp add: line_in_order_def)
    show ?thesis
      by (rule bucket_record_contiguous [OF _ _ _ 2(3)]) (use assms(1,2) io in simp_all)
  qed
qed

lemma update_lines_contiguous:
  assumes "agg_inv self" and "contiguous (bucket_seconds self) (timeline self)"
    and "lines_in_order lib ls self" and "update_lines lib ls self = Inr s'"
  shows "contiguous (bucket_seconds s') (timeline s')"
  using assms
proof (induction ls arbitrary: self)
  case Nil
  then show ?case by simp
next
  case (Cons l ls)
  obtain line clk where l: "l = (line, clk)" by (cases l)
  with Cons.prems(4) obtain s1 where s1: "update_line lib clk line self = Inr s1"
    and rest: "update_lines lib ls s1 = Inr s'"
    by (auto split: sum.splits)
  from Cons.prems(3) l s1 have lo: "line_in_order lib clk line self"
    and ro: "lines_in_order lib ls s1"
    by simp_all
  from Cons.prems(1) s1 have "agg_inv s1" by (rule update_line_inv)
  moreover from Cons.prems(1,2) lo s1 have "contiguous (bucket_seconds s1) (timeline s1)"
    by (rule update_line_contiguous)
  ultimately show ?case using ro rest by (rule Cons.IH)
qed

lemma update_contiguous:
  assumes "agg_inv self" and "contiguous (bucket_seconds self) (timeline self)"
    and "op_in_order lib (Update files fs clock) self"
    and "update lib files fs clock self = Inr s'"
  shows "contiguous (bucket_seconds s') (timeline s')"
proof -
  obtain lines p where r: "read_new_lines lib files fs (tail_positions self) = (lines, p)"
    by (cases "read_new_lines lib files fs (tail_positions self)")
  let ?s = "self\<lparr>tail_positions := p\<rparr>"
  let ?ls = "zip (map snd lines) (map clock [0..<length lines])"
  from assms(4) r have u: "update_lines lib ?ls ?s = Inr s'"
    by (simp add: update_def)
  from assms(3) r have o: "lines_in_order lib ?ls ?s" by simp
  have "agg_inv ?s" using assms(1) by simp
  moreover have "contiguous (bucket_seconds ?s) (timeline ?s)" using assms(2) by simp
  ultimately show ?thesis using o u by (rule update_lines_contiguous)
qed

lemma backfill_loop_contiguous:
  assumes "agg_inv self" and "contiguous (bucket_seconds self) (timeline self)"
    and "timeline self \<noteq> []" and "fst (last (timeline self)) = b"
    and "backfill_loop target_b b self = Inr s'"
  shows "contiguous (bucket_seconds s') (timeline s')"
  using assms
proof (induction target_b b self rule: backfill_loop.induct)
  case (1 target_b b self)
  show ?case
  proof (cases "b < target_b")
    case False
    with "1.prems" show ?thesis by (simp add: backfill_loop.simps [of target_b b self])
  next
    case True
    let ?w = "bucket_seconds self"
    let ?e = "ensure_bucket (b + ?w) self"
    from "1.prems"(1) have w1: "1 \<le> ?w" and dom_eq: "dom (bucket_map self) = fst ` set (timeline self)"
      by (simp_all add: agg_inv_def)
    then have w: "\<not> ?w \<le> 0" by simp
    from "1.prems"(5) True w have r: "backfill_loop target_b (b + ?w) ?e = Inr s'"
      by (simp add: backfill_loop.simps [of target_b b self])
    have "b + ?w \<notin> fst ` set (timeline self)"
    proof
      assume "b + ?w \<in> fst ` set (timeline self)"
      then obtain x where "x \<in> set (timeline self)" and "fst x = b + ?w" by auto
      moreover from "1.prems"(2) have "fst x \<le> fst (last (timeline self))"
        if "x \<in> set (timeline self)" for x
        using that w1 by (intro contiguous_le_last [of ?w]) simp_all
      ultimately show False using "1.prems"(4) w1 by fastforce
    qed
    with dom_eq have new: "bucket_map self (b + ?w) = None" by (metis domIff)
    have io: "in_order self (b + ?w)"
      using "1.prems"(4) by (simp add: in_order_def)
    have i: "agg_inv ?e" using "1.prems"(1) by (rule ensure_bucket_inv)
    have c: "contiguous (bucket_seconds ?e) (timeline ?e)"
      using ensure_bucket_contiguous [OF "1.prems"(1,2) io] by simp
    from ensure_bucket_new_last [OF "1.prems"(1) new]
    have ne: "timeline ?e \<noteq> []" and la: "fst (last (timeline ?e)) = b + ?w" by simp_all
    from "1.IH" [OF True w i c ne la r] show ?thesis .
  qed
qed

lemma ensure_buckets_to_contiguous:
  assumes "agg_inv self" and "contiguous (bucket_seconds self) (timeline self)"
    and "ensure_buckets_to now_ts self = Inr s'"
  shows "contiguous (bucket_seconds s') (timeline s')"
proof (cases "timeline self = []")
  case True
  with assms(3) obtain b where s': "s' = ensure_bucket b self"
    by (auto simp: ensure_buckets_to_def split: sum.splits)
  have "in_order self b" using True by (simp add: in_order_def)
  with assms(1,2) have "contiguous (bucket_seconds self) (timeline (ensure_bucket b self))"
    by (rule ensure_bucket_contiguous)
  then show ?thesis unfolding s' by simp
next
  case False
  with assms(3) obtain t where "backfill_loop t (fst (last (timeline self))) self = Inr s'"
    by (auto simp: ensure_buckets_to_def Let_def split: sum.splits)
  with assms(1,2) False show ?thesis
    by (intro backfill_loop_contiguous [of self "fst (last (timeline self))" t s']) simp_all
qed

lemma step_contiguous:
  assumes "agg_inv self" and "contiguous (bucket_seconds self) (timeline self)"
    and "op_in_order lib a self" and "step lib a self = Inr s'"
  shows "contiguous (bucket_seconds s') (timeline s')"
proof (cases a)
  case (Update files fs clock)
  with assms(3,4) have "op_in_order lib (Update files fs clock) self"
    and "update lib files fs clock self = Inr s'"
    by simp_all
  with assms(1,2) show ?thesis by (rule update_contiguous)
next
  case (EnsureTo now_ts)
  with assms(4) have "ensure_buckets_to now_ts self = Inr s'" by simp
  with assms(1,2) show ?thesis by (rule ensure_buckets_to_contiguous)
next
  case (SetBucket sec)
  with assms(4) show ?thesis by (auto simp: set_bucket_seconds_def)
qed

lemma run_contiguous:
  assumes "agg_inv self" and "contiguous (bucket_seconds self) (timeline self)"
    and "ops_in_order lib ops self" and "run lib ops self = Inr s'"
  shows "contiguous (bucket_seconds s') (timeline s')"
  using assms
proof (induction ops arbitrary: self)
  case Nil
  then show ?case by simp
next
  case (Cons a ops)
  from Cons.prems(4) obtain s1 where s1: "step lib a self = Inr s1"
    and rest: "run lib ops s1 = Inr s'"
    by (auto split: sum.splits)
  from Cons.prems(3) s1 have ao: "op_in_order lib a self" and ro: "ops_in_order lib ops s1"
    by simp_all
  from Cons.prems(1) s1 have "agg_inv s1" by (rule step_inv)
  moreover from Cons.prems(1,2) ao s1 have "contiguous (bucket_seconds s1) (timeline s1)"
    by (rule step_contiguous)
  ultimately show ?case using ro rest by (rule Cons.IH)
qed

section \<open>Bucket starts of the timeline\<close>

text \<open>
  C1, as the specification states it, fails: \<^verbatim>\<open>update\<close> appends the bucket of a record
  at the end of the deque whenever its start is not yet a key of the index, whatever the
  start is.
  Two records read in one poll, the first 100 seconds later than the second, leave the
  timeline with the later bucket first; its starts are neither increasing nor 10 apart.
\<close>

theorem timeline_contiguity_counterexample:
  "\<not> isl (run demo_lib [sample_poll [rec_late, rec_a] 0] (init_agg 10 72)) \<and>
   timeline (projr (run demo_lib [sample_poll [rec_late, rec_a] 0] (init_agg 10 72)))
     = [(1704067300, 1, 0), (1704067200, 1, 0)] \<and>
   bucket_seconds (projr (run demo_lib [sample_poll [rec_late, rec_a] 0] (init_agg 10 72))) = 10 \<and>
   \<not> contiguous
       (bucket_seconds (projr (run demo_lib [sample_poll [rec_late, rec_a] 0] (init_agg 10 72))))
       (timeline (projr (run demo_lib [sample_poll [rec_late, rec_a] 0] (init_agg 10 72)))) \<and>
   \<not> sorted_wrt (<)
       (map fst (timeline (projr (run demo_lib [sample_poll [rec_late, rec_a] 0]
                                    (init_agg 10 72)))))"
proof -
  let ?r = "run demo_lib [sample_poll [rec_late, rec_a] 0] (init_agg 10 72)"
  have r: "\<not> isl ?r"
    by (simp add: eval_defs demo_defs)
  have t: "timeline (projr ?r) = [(1704067300, 1, 0), (1704067200, 1, 0)]"
    by (simp add: eval_defs demo_defs)
  have w: "bucket_seconds (projr ?r) = 10"
    by (simp add: eval_defs demo_defs)
  show ?thesis
    unfolding t w using r by simp
qed

text \<open>
  C1, amended. In every state the aggregator reaches from its constructor by calls of
  \<^verbatim>\<open>update\<close>, \<^verbatim>\<open>ensure_buckets_to\<close> and \<^verbatim>\<open>set_bucket_seconds\<close>, no two buckets of the
  timeline have the same start. If moreover every record was, when \<^verbatim>\<open>update\<close> processed
  it, in order (its bucket already in the index, or the timeline empty, or its bucket the
  one right after the last bucket), then the bucket starts are strictly increasing and
  consecutive starts differ by exactly the current bucket width.
\<close>

theorem timeline_contiguous_when_records_in_order:
  assumes "run lib ops (init_agg w m) = Inr self"
  shows "distinct (map fst (timeline self)) \<and>
         (ops_in_order lib ops (init_agg w m) \<longrightarrow>
            contiguous (bucket_seconds self) (timeline self) \<and>
            sorted_wrt (<) (map fst (timeline self)))"
proof -
  have inv: "agg_inv self"
    using init_agg_inv assms by (rule run_inv)
  then have d: "distinct (map fst (timeline self))" and w1: "1 \<le> bucket_seconds self"
    by (simp_all add: agg_inv_def)
  have "contiguous (bucket_seconds self) (timeline self) \<and>
        sorted_wrt (<) (map fst (timeline self))"
    if o: "ops_in_order lib ops (init_agg w m)"
  proof -
    have "contiguous (bucket_seconds (init_agg w m)) (timeline (init_agg w m))"
      by (simp add: init_agg_def)
    with init_agg_inv have c: "contiguous (bucket_seconds self) (timeline self)"
      using o assms by (rule run_contiguous)
    then show ?thesis using w1 by (simp add: contiguous_sorted)
  qed
  with d show ?thesis by blast
qed

theorem timeline_contiguous_when_records_in_order_witness:
  "\<not> isl (run demo_lib [sample_poll [rec_a, rec_b, rec_next] 0, EnsureTo 1704067245]
            (init_agg 10 72)) \<and>
   ops_in_order demo_lib [sample_poll [rec_a, rec_b, rec_next] 0, EnsureTo 1704067245]
     (init_agg 10 72) \<and>
   timeline (projr (run demo_lib [sample_poll [rec_a, rec_b, rec_next] 0, EnsureTo 1704067245]
                      (init_agg 10 72)))
     = [(1704067200, 1, 1), (1704067210, 1, 0), (1704067220, 0, 0), (1704067230, 0, 0),
        (1704067240, 0, 0)] \<and>
   contiguous 10
     (timeline (projr (run demo_lib [sample_poll [rec_a, rec_b, rec_next] 0, EnsureTo 1704067245]
                      (init_agg 10 72))))"
proof -
  let ?ops = "[sample_poll [rec_a, rec_b, rec_next] 0, EnsureTo 1704067245]"
  let ?r = "run demo_lib ?ops (init_agg 10 72)"
  have r: "\<not> isl ?r"
    by (simp add: eval_defs demo_defs)
  have o: "ops_in_order demo_lib ?ops (init_agg 10 72)"
    by (simp add: eval_defs demo_defs line_in_order_def line_ts_def in_order_def)
  have t: "timeline (projr ?r)
     = [(1704067200, 1, 1), (1704067210, 1, 0), (1704067220, 0, 0), (1704067230, 0, 0),
        (1704067240, 0, 0)]"
    by (simp add: eval_defs demo_defs)
  have w: "bucket_seconds (projr ?r) = 10"
    by (simp add: eval_defs demo_defs)
  from r have "?r = Inr (projr ?r)" by simp
  from timeline_contiguous_when_records_in_order [OF this] o
  have "contiguous (bucket_seconds (projr ?r)) (timeline (projr ?r))" by blast
  then have "contiguous 10 (timeline (projr ?r))" unfolding w .
  with r o t show ?thesis by blast
qed

section \<open>Empty buckets\<close>

lemma drop_excess_append:
  "drop (length (drop (length xs - m) xs @ ys) - m) (drop (length xs - m) xs @ ys)
   = drop (length (xs @ ys) - m) (xs @ ys)"
proof (cases "length xs \<le> m")
  case True
  then show ?thesis by simp
next
  case False
  let ?a = "length xs - m"
  from False have l: "length (drop ?a xs @ ys) - m = length ys" by simp
  have "drop ?a xs @ ys = drop ?a (xs @ ys)" by simp
  then have "drop (length ys) (drop ?a xs @ ys) = drop (length ys + ?a) (xs @ ys)"
    by (simp only: drop_drop)
  moreover from False have "length ys + ?a = length (xs @ ys) - m" by simp
  ultimately show ?thesis unfolding l by simp
qed

lemma empty_buckets_0 [simp]: "empty_buckets L w 0 = []"
  by (simp add: empty_buckets_def)

lemma empty_buckets_Suc: "empty_buckets L w (Suc k) = (L + w, 0, 0) # empty_buckets (L + w) w k"
proof -
  have "[1..<Suc (Suc k)] = 1 # map Suc [1..<Suc k]"
    by (simp add: upt_conv_Cons map_Suc_upt del: upt_Suc)
  then have "empty_buckets L w (Suc k)
      = (L + w, 0, 0) # map (\<lambda>i. (L + int (Suc i) * w, 0, 0)) [1..<Suc k]"
    by (simp add: empty_buckets_def comp_def del: upt_Suc)
  also have "map (\<lambda>i. (L + int (Suc i) * w, 0, 0)) [1..<Suc k] = empty_buckets (L + w) w k"
    by (simp add: empty_buckets_def algebra_simps del: upt_Suc)
  finally show ?thesis .
qed

lemma length_empty_buckets [simp]: "length (empty_buckets L w k) = k"
  by (simp add: empty_buckets_def)

lemma starts_empty_buckets:
  "fst ` set (empty_buckets L w k) = (\<lambda>i. L + int i * w) ` {1..k}"
proof -
  have "set [1..<Suc k] = {1..k}" by auto
  then show ?thesis
    by (simp add: empty_buckets_def image_image del: upt_Suc)
qed

section \<open>The loop of ensure_buckets_to\<close>

lemma backfill_loop_result:
  assumes "agg_inv s"
    and "\<forall>i\<in>{1..k}. bucket_map s (b + int i * bucket_seconds s) = None"
  shows "backfill_loop (b + int k * bucket_seconds s) b s =
           Inr (s\<lparr> timeline :=
                     drop (length (timeline s @ empty_buckets b (bucket_seconds s) k) - max_buckets s)
                       (timeline s @ empty_buckets b (bucket_seconds s) k),
                   bucket_map :=
                     (\<lambda>x. if x \<in> fst ` set (drop (length (timeline s @
                                    empty_buckets b (bucket_seconds s) k) - max_buckets s)
                                  (timeline s @ empty_buckets b (bucket_seconds s) k))
                          then (if x \<in> fst ` set (empty_buckets b (bucket_seconds s) k)
                                then Some (0, 0) else bucket_map s x)
                          else None) \<rparr>)"
  using assms
proof (induction k arbitrary: s b)
  case 0
  from "0.prems"(1) have len: "length (timeline s) \<le> max_buckets s"
    and dom_eq: "dom (bucket_map s) = fst ` set (timeline s)"
    by (simp_all add: agg_inv_def)
  have "(\<lambda>x. if x \<in> fst ` set (timeline s) then bucket_map s x else None) = bucket_map s"
  proof (rule ext)
    fix x
    show "(if x \<in> fst ` set (timeline s) then bucket_map s x else None) = bucket_map s x"
      using dom_eq by (metis domIff)
  qed
  then show ?case
    using len by (simp add: backfill_loop.simps [of b b s] cong: if_cong)
next
  case (Suc k)
  let ?w = "bucket_seconds s" and ?m = "max_buckets s" and ?tl = "timeline s"
  let ?e1 = "(b + ?w, 0, 0) :: bucket"
  let ?E' = "empty_buckets (b + ?w) ?w k"
  let ?n = "Suc (length ?tl) - ?m"
  let ?Ev = "fst ` set (take ?n (?tl @ [?e1]))"
  let ?s1 = "ensure_bucket (b + ?w) s"
  let ?T1 = "drop ?n (?tl @ [?e1])"
  let ?B1 = "\<lambda>x. if x \<in> ?Ev then None else ((bucket_map s)(b + ?w \<mapsto> (0, 0))) x"
  let ?T = "drop (length (?tl @ ?e1 # ?E') - ?m) (?tl @ ?e1 # ?E')"
  from Suc.prems(1) have w1: "1 \<le> ?w" by (simp add: agg_inv_def)
  have new: "bucket_map s (b + ?w) = None"
    using Suc.prems(2) by (auto dest: bspec [of _ _ 1])
  have s1: "?s1 = s\<lparr>timeline := ?T1, bucket_map := ?B1\<rparr>"
    using new by (rule ensure_bucket_new)
  have inv1: "agg_inv ?s1" using Suc.prems(1) by (rule ensure_bucket_inv)
  have tl1: "timeline ?s1 = ?T1" and bm1: "bucket_map ?s1 = ?B1"
    by (simp_all add: s1)
  have later: "\<forall>i\<in>{1..k}. bucket_map ?s1 (b + ?w + int i * bucket_seconds ?s1) = None"
  proof
    fix i assume i: "i \<in> {1..k}"
    define x where "x = b + ?w + int i * ?w"
    from i have "Suc i \<in> {1..Suc k}" by simp
    with Suc.prems(2) have "bucket_map s (b + int (Suc i) * ?w) = None" by blast
    moreover have "b + int (Suc i) * ?w = x" by (simp add: x_def algebra_simps)
    ultimately have "bucket_map s x = None" by simp
    moreover have "x \<noteq> b + ?w" using i w1 by (simp add: x_def)
    ultimately have "?B1 x = None" by simp
    then have "bucket_map ?s1 x = None" by (simp only: bm1)
    then show "bucket_map ?s1 (b + ?w + int i * bucket_seconds ?s1) = None"
      unfolding x_def by (simp only: ensure_bucket_frame)
  qed
  have tgt: "b + int (Suc k) * ?w = b + ?w + int k * bucket_seconds ?s1"
    by (simp add: algebra_simps)
  have "0 < int (Suc k) * ?w"
    using w1 by (intro mult_pos_pos) simp_all
  then have lt: "b < b + int (Suc k) * ?w" by simp
  have nw: "\<not> ?w \<le> 0" using w1 by simp
  have "backfill_loop (b + int (Suc k) * ?w) b s
          = backfill_loop (b + int (Suc k) * ?w) (b + ?w) ?s1"
    by (simp only: backfill_loop.simps [of "b + int (Suc k) * ?w" b s] lt nw if_True if_False)
  also note Suc.IH [OF inv1 later, folded tgt]
  finally have loop: "backfill_loop (b + int (Suc k) * ?w) b s =
     Inr (?s1\<lparr> timeline :=
                 drop (length (timeline ?s1 @ empty_buckets (b + ?w) (bucket_seconds ?s1) k)
                       - max_buckets ?s1)
                   (timeline ?s1 @ empty_buckets (b + ?w) (bucket_seconds ?s1) k),
               bucket_map :=
                 (\<lambda>x. if x \<in> fst ` set (drop (length (timeline ?s1 @
                                    empty_buckets (b + ?w) (bucket_seconds ?s1) k) - max_buckets ?s1)
                                  (timeline ?s1 @ empty_buckets (b + ?w) (bucket_seconds ?s1) k))
                      then (if x \<in> fst ` set (empty_buckets (b + ?w) (bucket_seconds ?s1) k)
                            then Some (0, 0) else bucket_map ?s1 x)
                      else None) \<rparr>)" .
  have T2: "drop (length (?T1 @ ?E') - ?m) (?T1 @ ?E') = ?T"
    using drop_excess_append [of "?tl @ [?e1]" ?m ?E'] by simp
  have B2: "(\<lambda>x. if x \<in> fst ` set ?T
                  then (if x \<in> fst ` set ?E' then Some (0, 0) else ?B1 x) else None)
          = (\<lambda>x. if x \<in> fst ` set ?T
                  then (if x \<in> fst ` set (?e1 # ?E') then Some (0, 0) else bucket_map s x)
                  else None)"
  proof (rule ext)
    fix x
    show "(if x \<in> fst ` set ?T
             then (if x \<in> fst ` set ?E' then Some (0, 0) else ?B1 x) else None)
        = (if x \<in> fst ` set ?T
             then (if x \<in> fst ` set (?e1 # ?E') then Some (0, 0) else bucket_map s x)
             else None)"
    proof (cases "x \<in> fst ` set ?T \<and> x \<notin> fst ` set ?E'")
      case False
      then show ?thesis by auto
    next
      case True
      then have "x \<in> fst ` set (?T1 @ ?E')"
        unfolding T2 [symmetric] by (meson image_mono in_mono set_drop_subset)
      with True have "x \<in> fst ` set (timeline ?s1)"
        unfolding tl1 by auto
      with inv1 have "bucket_map ?s1 x \<noteq> None"
        unfolding agg_inv_def by (metis domIff)
      then have "x \<notin> ?Ev" unfolding bm1 by (simp split: if_splits)
      with True show ?thesis by simp
    qed
  qed
  have loop': "backfill_loop (b + int (Suc k) * ?w) b s =
     Inr (?s1\<lparr> timeline := drop (length (?T1 @ ?E') - ?m) (?T1 @ ?E'),
             bucket_map := (\<lambda>x. if x \<in> fst ` set (drop (length (?T1 @ ?E') - ?m) (?T1 @ ?E'))
                      then (if x \<in> fst ` set ?E' then Some (0, 0) else ?B1 x) else None) \<rparr>)"
    using loop by (simp only: tl1 bm1 ensure_bucket_frame)
  have "?s1\<lparr> timeline := drop (length (?T1 @ ?E') - ?m) (?T1 @ ?E'),
             bucket_map := (\<lambda>x. if x \<in> fst ` set (drop (length (?T1 @ ?E') - ?m) (?T1 @ ?E'))
                      then (if x \<in> fst ` set ?E' then Some (0, 0) else ?B1 x) else None) \<rparr>
      = s\<lparr> timeline := ?T,
           bucket_map := (\<lambda>x. if x \<in> fst ` set ?T
                  then (if x \<in> fst ` set (?e1 # ?E') then Some (0, 0) else bucket_map s x)
                  else None) \<rparr>"
    unfolding T2 B2 by (simp add: s1)
  with loop' show ?case
    unfolding empty_buckets_Suc by (simp only:)
qed

section \<open>Backfilling idle periods\<close>

lemma bucket_start_contains:
  assumes "1 \<le> bucket_seconds self" and "bucket_start self ts = Inr T"
  shows "real_of_int T \<le> ts \<and> ts < real_of_int T + real_of_int (bucket_seconds self)"
proof -
  let ?w = "real_of_int (bucket_seconds self)"
  from assms(1) have w: "0 < ?w" by simp
  from assms(1) have "bucket_seconds self \<noteq> 0" by simp
  from bucket_start_floor [OF this, of ts] assms(2)
  have "T = bucket_seconds self * \<lfloor>ts / ?w\<rfloor>" by simp
  then have T: "real_of_int T = ?w * real_of_int \<lfloor>ts / ?w\<rfloor>"
    by (simp only: of_int_mult)
  have "real_of_int \<lfloor>ts / ?w\<rfloor> \<le> ts / ?w" by (rule of_int_floor_le)
  then have "?w * real_of_int \<lfloor>ts / ?w\<rfloor> \<le> ?w * (ts / ?w)"
    using w by (intro mult_left_mono) simp_all
  moreover have wq: "?w * (ts / ?w) = ts" using w by simp
  ultimately have lo: "?w * real_of_int \<lfloor>ts / ?w\<rfloor> \<le> ts" by (simp only:)
  have "ts / ?w < real_of_int \<lfloor>ts / ?w\<rfloor> + 1" by linarith
  then have "?w * (ts / ?w) < ?w * (real_of_int \<lfloor>ts / ?w\<rfloor> + 1)"
    using w by (intro mult_strict_left_mono) simp_all
  then have hi: "ts < ?w * real_of_int \<lfloor>ts / ?w\<rfloor> + ?w"
    unfolding wq by (simp only: distrib_left mult_1_right)
  from lo hi show ?thesis unfolding T by simp
qed

lemma ensure_bucket_first:
  assumes "agg_inv self" and "timeline self = []"
  shows "ensure_bucket T self = self\<lparr>timeline := [(T, 0, 0)], bucket_map := [T \<mapsto> (0, 0)]\<rparr>"
proof -
  from assms have e: "bucket_map self = Map.empty" and m: "1 \<le> max_buckets self"
    by (simp_all add: agg_inv_def)
  then have n: "bucket_map self T = None" by simp
  from m have d: "Suc 0 - max_buckets self = 0" by simp
  have "(\<lambda>k. if k = T then Some (0, 0) else None) = [T \<mapsto> (0::nat, 0::nat)]"
    by (rule ext) simp
  then show ?thesis
    unfolding ensure_bucket_new [OF n] by (simp add: assms(2) e d)
qed

text \<open>
  C3, as the specification states it, fails when the deque is full: \<^verbatim>\<open>_ensure_bucket\<close> evicts from
  the front after every append. With \<open>max_buckets = 3\<close> and the single bucket
  \<open>(1704067200, 0, 0)\<close>, a call for a time three widths later leaves the three new empty
  buckets and has dropped the old one.
\<close>

theorem backfill_evicts_counterexample:
  "timeline (projr (ensure_buckets_to 1704067205 (init_agg 10 3))) = [(1704067200, 0, 0)] \<and>
   bucket_start (projr (ensure_buckets_to 1704067205 (init_agg 10 3))) 1704067235
     = Inr (1704067200 + 3 * 10) \<and>
   \<not> isl (ensure_buckets_to 1704067235 (projr (ensure_buckets_to 1704067205 (init_agg 10 3)))) \<and>
   timeline (projr (ensure_buckets_to 1704067235
               (projr (ensure_buckets_to 1704067205 (init_agg 10 3)))))
     = [(1704067210, 0, 0), (1704067220, 0, 0), (1704067230, 0, 0)] \<and>
   timeline (projr (ensure_buckets_to 1704067235
               (projr (ensure_buckets_to 1704067205 (init_agg 10 3)))))
     \<noteq> timeline (projr (ensure_buckets_to 1704067205 (init_agg 10 3)))
         @ [(1704067210, 0, 0), (1704067220, 0, 0), (1704067230, 0, 0)]"
  by (simp add: eval_defs)

text \<open>
  C3, amended. Let the aggregator satisfy its invariant. If the timeline is not empty, its
  last bucket starts at \<open>L\<close>, the bucket start computed for \<open>now\<close> is \<open>L + k * width\<close> with
  \<open>k \<ge> 1\<close>, and none of \<open>L + width, \<dots>, L + k * width\<close> is already a key of the index, then
  \<^verbatim>\<open>ensure_buckets_to(now)\<close> returns, and the timeline is the old one followed by the \<open>k\<close>
  empty buckets, cut from the front to its last \<open>max_buckets\<close> entries; the index keeps
  the entries of the buckets that remain and maps each new bucket to \<open>(0, 0)\<close>; no other
  field changes. When the old length plus \<open>k\<close> is at most \<open>max_buckets\<close> nothing is cut:
  exactly the \<open>k\<close> empty buckets are appended. If the timeline is empty, the call creates
  the single bucket \<open>(T, 0, 0)\<close> whose window \<open>[T, T + width)\<close> contains \<open>now\<close>.
\<close>

theorem ensure_buckets_to_appends_empty_buckets_then_evicts:
  assumes "agg_inv self"
  shows "(timeline self \<noteq> [] \<and> L = fst (last (timeline self)) \<and> w = bucket_seconds self \<and>
          1 \<le> k \<and> bucket_start self now_ts = Inr (L + int k * w) \<and>
          (\<forall>i\<in>{1..k}. bucket_map self (L + int i * w) = None)
          \<longrightarrow> (\<exists>s'. ensure_buckets_to now_ts self = Inr s' \<and>
                 s' = self\<lparr>timeline := timeline s', bucket_map := bucket_map s'\<rparr> \<and>
                 timeline s' = drop (length (timeline self) + k - max_buckets self)
                                 (timeline self @ empty_buckets L w k) \<and>
                 (\<forall>b. bucket_map s' b =
                        (if b \<in> fst ` set (timeline s')
                         then (if b \<in> fst ` set (empty_buckets L w k) then Some (0, 0)
                               else bucket_map self b)
                         else None)) \<and>
                 (length (timeline self) + k \<le> max_buckets self \<longrightarrow>
                    timeline s' = timeline self @ empty_buckets L w k)))
       \<and> (timeline self = [] \<and> bucket_start self now_ts = Inr T
          \<longrightarrow> ensure_buckets_to now_ts self
                  = Inr (self\<lparr>timeline := [(T, 0, 0)], bucket_map := [T \<mapsto> (0, 0)]\<rparr>) \<and>
              real_of_int T \<le> now_ts \<and>
              now_ts < real_of_int T + real_of_int (bucket_seconds self))"
proof (intro conjI impI; (elim conjE)?)
  assume ne: "timeline self \<noteq> []" and L: "L = fst (last (timeline self))"
    and w: "w = bucket_seconds self" and "1 \<le> k"
    and bs: "bucket_start self now_ts = Inr (L + int k * w)"
    and free': "\<forall>i\<in>{1..k}. bucket_map self (L + int i * w) = None"
  let ?T = "drop (length (timeline self @ empty_buckets L w k) - max_buckets self)
              (timeline self @ empty_buckets L w k)"
  let ?B = "\<lambda>x. if x \<in> fst ` set ?T
                 then (if x \<in> fst ` set (empty_buckets L w k) then Some (0, 0)
                       else bucket_map self x)
                 else None"
  from free' have free: "\<forall>i\<in>{1..k}. bucket_map self (L + int i * bucket_seconds self) = None"
    unfolding w .
  have "ensure_buckets_to now_ts self = backfill_loop (L + int k * w) L self"
    using ne bs by (simp add: ensure_buckets_to_def Let_def L [symmetric])
  also have "\<dots> = Inr (self\<lparr>timeline := ?T, bucket_map := ?B\<rparr>)"
    using backfill_loop_result [OF assms free] unfolding w .
  finally have r: "ensure_buckets_to now_ts self = Inr (self\<lparr>timeline := ?T, bucket_map := ?B\<rparr>)" .
  show "\<exists>s'. ensure_buckets_to now_ts self = Inr s' \<and>
                 s' = self\<lparr>timeline := timeline s', bucket_map := bucket_map s'\<rparr> \<and>
                 timeline s' = drop (length (timeline self) + k - max_buckets self)
                                 (timeline self @ empty_buckets L w k) \<and>
                 (\<forall>b. bucket_map s' b =
                        (if b \<in> fst ` set (timeline s')
                         then (if b \<in> fst ` set (empty_buckets L w k) then Some (0, 0)
                               else bucket_map self b)
                         else None)) \<and>
                 (length (timeline self) + k \<le> max_buckets self \<longrightarrow>
                    timeline s' = timeline self @ empty_buckets L w k)"
  proof (intro exI conjI allI impI)
    show "ensure_buckets_to now_ts self = Inr (self\<lparr>timeline := ?T, bucket_map := ?B\<rparr>)"
      by (rule r)
  qed simp_all
next
  assume "timeline self = []" and "bucket_start self now_ts = Inr T"
  then show "ensure_buckets_to now_ts self
                = Inr (self\<lparr>timeline := [(T, 0, 0)], bucket_map := [T \<mapsto> (0, 0)]\<rparr>)"
    using ensure_bucket_first [OF assms, of T] by (simp add: ensure_buckets_to_def)
next
  assume "timeline self = []" and h: "bucket_start self now_ts = Inr T"
  from assms have "1 \<le> bucket_seconds self" by (simp add: agg_inv_def)
  with h show "real_of_int T \<le> now_ts"
    using bucket_start_contains [of self now_ts T] by simp
next
  assume "timeline self = []" and h: "bucket_start self now_ts = Inr T"
  from assms have "1 \<le> bucket_seconds self" by (simp add: agg_inv_def)
  with h show "now_ts < real_of_int T + real_of_int (bucket_seconds self)"
    using bucket_start_contains [of self now_ts T] by simp
qed

theorem ensure_buckets_to_appends_empty_buckets_then_evicts_witness:
  "agg_inv (projr (run demo_lib [sample_poll [rec_a, rec_b] 0] (init_agg 10 72))) \<and>
   timeline (projr (run demo_lib [sample_poll [rec_a, rec_b] 0] (init_agg 10 72)))
     = [(1704067200, 1, 1)] \<and>
   bucket_start (projr (run demo_lib [sample_poll [rec_a, rec_b] 0] (init_agg 10 72)))
       1704067235.5 = Inr (1704067200 + int 3 * 10) \<and>
   bucket_map (projr (run demo_lib [sample_poll [rec_a, rec_b] 0] (init_agg 10 72)))
     (1704067200 + 10) = None \<and>
   bucket_map (projr (run demo_lib [sample_poll [rec_a, rec_b] 0] (init_agg 10 72)))
     (1704067200 + 20) = None \<and>
   bucket_map (projr (run demo_lib [sample_poll [rec_a, rec_b] 0] (init_agg 10 72)))
     (1704067200 + 30) = None \<and>
   \<not> isl (ensure_buckets_to 1704067235.5
            (projr (run demo_lib [sample_poll [rec_a, rec_b] 0] (init_agg 10 72)))) \<and>
   timeline (projr (ensure_buckets_to 1704067235.5
            (projr (run demo_lib [sample_poll [rec_a, rec_b] 0] (init_agg 10 72)))))
     = [(1704067200, 1, 1), (1704067210, 0, 0), (1704067220, 0, 0), (1704067230, 0, 0)] \<and>
   agg_inv (init_agg 10 72) \<and> timeline (init_agg 10 72) = [] \<and>
   bucket_start (init_agg 10 72) 1704067205.5 = Inr 1704067200 \<and>
   ensure_buckets_to 1704067205.5 (init_agg 10 72)
     = Inr ((init_agg 10 72)\<lparr>timeline := [(1704067200, 0, 0)],
                               bucket_map := [1704067200 \<mapsto> (0, 0)]\<rparr>)"
proof -
  let ?r = "run demo_lib [sample_poll [rec_a, rec_b] 0] (init_agg 10 72)"
  let ?L = "1704067200 :: int"
  define s where "s = projr ?r"
  define s0 where "s0 = init_agg 10 72"
  have r: "\<not> isl ?r"
    by (simp add: eval_defs demo_defs)
  then have "?r = Inr s" unfolding s_def by simp
  with init_agg_inv have inv: "agg_inv s" by (rule run_inv)
  have t: "timeline s = [(?L, 1, 1)]"
    unfolding s_def by (simp add: eval_defs demo_defs)
  have w: "bucket_seconds s = 10" and m: "max_buckets s = 72"
    unfolding s_def by (simp_all add: eval_defs demo_defs)
  have bs: "bucket_start s 1704067235.5 = Inr (?L + int 3 * 10)"
    by (simp add: bucket_start_def py_float_mod_def py_int_def w)
  have bm: "bucket_map s (?L + 10) = None" "bucket_map s (?L + 20) = None"
      "bucket_map s (?L + 30) = None"
    unfolding s_def by (simp_all add: eval_defs demo_defs)
  have free: "\<forall>i\<in>{1..3}. bucket_map s (?L + int i * 10) = None"
  proof
    fix i :: nat assume "i \<in> {1..3}"
    then have "i = 1 \<or> i = 2 \<or> i = 3" by auto
    with bm show "bucket_map s (?L + int i * 10) = None" by auto
  qed
  have E: "empty_buckets ?L 10 3 = [(1704067210, 0, 0), (1704067220, 0, 0), (1704067230, 0, 0)]"
    by (simp add: numeral_3_eq_3 empty_buckets_Suc)
  from ensure_buckets_to_appends_empty_buckets_then_evicts
         [OF inv, of ?L 10 3 "1704067235.5", THEN conjunct1] t w bs free
  obtain s' where s': "ensure_buckets_to 1704067235.5 s = Inr s'"
    and ts': "length (timeline s) + 3 \<le> max_buckets s \<longrightarrow>
              timeline s' = timeline s @ empty_buckets ?L 10 3"
    by auto
  from ts' have "timeline s' = [(?L, 1, 1), (1704067210, 0, 0), (1704067220, 0, 0),
                                 (1704067230, 0, 0)]"
    unfolding E t m by simp
  with s' have part1: "\<not> isl (ensure_buckets_to 1704067235.5 s)"
    "timeline (projr (ensure_buckets_to 1704067235.5 s))
       = [(?L, 1, 1), (1704067210, 0, 0), (1704067220, 0, 0), (1704067230, 0, 0)]"
    by simp_all
  have inv0: "agg_inv s0" unfolding s0_def by (rule init_agg_inv)
  have t0: "timeline s0 = []" unfolding s0_def by (simp add: init_agg_def)
  have bs0: "bucket_start s0 1704067205.5 = Inr ?L"
    unfolding s0_def by (simp add: bucket_start_def py_float_mod_def py_int_def init_agg_def)
  from ensure_buckets_to_appends_empty_buckets_then_evicts
         [OF inv0, of 0 0 0 "1704067205.5" ?L, THEN conjunct2] t0 bs0
  have part2: "ensure_buckets_to 1704067205.5 s0
     = Inr (s0\<lparr>timeline := [(?L, 0, 0)], bucket_map := [?L \<mapsto> (0, 0)]\<rparr>)"
    by blast
  from inv t bs bm part1 inv0 t0 bs0 part2 show ?thesis
    unfolding s_def s0_def by blast
qed

section \<open>Polling with no new bytes\<close>

lemma recorded_offset_upd [simp]:
  "recorded_offset (m(p \<mapsto> n)) q = (if q = p then n else recorded_offset m q)"
  by (simp add: recorded_offset_def)

lemma tail_file_no_new_bytes:
  assumes "getsize (fs p) = Returns (recorded_offset positions p)"
  shows "tail_file lib fs p (acc, positions) = (acc, positions(p \<mapsto> recorded_offset positions p))"
  using assms by (simp add: tail_file_def Let_def)

lemma fold_tail_file_no_new_bytes:
  assumes "\<forall>p\<in>set files. getsize (fs p) = Returns (recorded_offset positions p)"
  shows "\<exists>positions'. fold (tail_file lib fs) files (acc, positions) = (acc, positions') \<and>
           (\<forall>p. recorded_offset positions' p = recorded_offset positions p)"
  using assms
proof (induction files arbitrary: positions)
  case Nil
  then show ?case by simp
next
  case (Cons f files)
  let ?P = "positions(f \<mapsto> recorded_offset positions f)"
  from Cons.prems have f: "getsize (fs f) = Returns (recorded_offset positions f)" by simp
  have same: "recorded_offset ?P p = recorded_offset positions p" for p by simp
  from Cons.prems have "\<forall>p\<in>set files. getsize (fs p) = Returns (recorded_offset ?P p)"
    unfolding same by simp
  from Cons.IH [OF this] obtain positions'
    where "fold (tail_file lib fs) files (acc, ?P) = (acc, positions')"
      and "\<forall>p. recorded_offset positions' p = recorded_offset ?P p"
    by blast
  moreover have "tail_file lib fs f (acc, positions) = (acc, ?P)"
    using f by (rule tail_file_no_new_bytes)
  ultimately show ?case
    unfolding same by simp
qed

text \<open>
  C8. If every file that matches the pattern has exactly its recorded offset as size (no
  byte was appended since the previous poll), \<^verbatim>\<open>read_new_lines\<close> returns no line and
  leaves every recorded offset as it was, and \<^verbatim>\<open>MetricsAgg.update\<close> returns the aggregator
  with no field changed but the tailer's positions: every counter and the timeline are
  the same.
\<close>

theorem poll_without_new_bytes_is_empty:
  assumes "\<forall>p\<in>set files. getsize (fs p) = Returns (recorded_offset (tail_positions self) p)"
  shows "fst (read_new_lines lib files fs (tail_positions self)) = [] \<and>
         (\<forall>p. recorded_offset (snd (read_new_lines lib files fs (tail_positions self))) p
                = recorded_offset (tail_positions self) p) \<and>
         update lib files fs clock self
           = Inr (self\<lparr>tail_positions := snd (read_new_lines lib files fs (tail_positions self))\<rparr>)"
proof -
  from fold_tail_file_no_new_bytes [OF assms, of lib "[]"]
  obtain positions' where r: "read_new_lines lib files fs (tail_positions self) = ([], positions')"
    and p: "\<forall>p. recorded_offset positions' p = recorded_offset (tail_positions self) p"
    unfolding read_new_lines_def by blast
  then show ?thesis by (simp add: update_def)
qed

theorem poll_without_new_bytes_is_empty_witness:
  "\<not> isl (run demo_lib [sample_poll [rec_a, rec_b] 0] (init_agg 10 72)) \<and>
   getsize (one_file (file_of_lines [rec_a, rec_b]) ''m.jsonl'')
     = Returns (recorded_offset
         (tail_positions (projr (run demo_lib [sample_poll [rec_a, rec_b] 0] (init_agg 10 72))))
         ''m.jsonl'') \<and>
   fst (read_new_lines demo_lib [''m.jsonl''] (one_file (file_of_lines [rec_a, rec_b]))
          (tail_positions (projr (run demo_lib [sample_poll [rec_a, rec_b] 0] (init_agg 10 72)))))
     = [] \<and>
   success (projr (update demo_lib [''m.jsonl''] (one_file (file_of_lines [rec_a, rec_b])) (\<lambda>i. 9)
              (projr (run demo_lib [sample_poll [rec_a, rec_b] 0] (init_agg 10 72))))) = 1 \<and>
   fail (projr (update demo_lib [''m.jsonl''] (one_file (file_of_lines [rec_a, rec_b])) (\<lambda>i. 9)
              (projr (run demo_lib [sample_poll [rec_a, rec_b] 0] (init_agg 10 72))))) = 1"
proof -
  let ?r = "run demo_lib [sample_poll [rec_a, rec_b] 0] (init_agg 10 72)"
  let ?fs = "one_file (file_of_lines [rec_a, rec_b])"
  define s where "s = projr ?r"
  have r: "\<not> isl ?r"
    by (simp add: eval_defs demo_defs)
  have sf: "success s = 1" "fail s = 1"
    unfolding s_def by (simp_all add: eval_defs demo_defs)
  have g: "getsize (?fs ''m.jsonl'') = Returns (recorded_offset (tail_positions s) ''m.jsonl'')"
    unfolding s_def by (simp add: eval_defs demo_defs)
  then have h: "\<forall>p\<in>set [''m.jsonl'']. getsize (?fs p) = Returns (recorded_offset (tail_positions s) p)"
    by simp
  from poll_without_new_bytes_is_empty [OF h, of demo_lib "\<lambda>i. 9"] sf
  have "fst (read_new_lines demo_lib [''m.jsonl''] ?fs (tail_positions s)) = []"
    and "success (projr (update demo_lib [''m.jsonl''] ?fs (\<lambda>i. 9) s)) = 1"
    and "fail (projr (update demo_lib [''m.jsonl''] ?fs (\<lambda>i. 9) s)) = 1"
    by simp_all
  with r g show ?thesis unfolding s_def by blast
qed

section \<open>Truncated and rotated files\<close>

text \<open>Lines of a poll that come from path \<open>p\<close>.\<close>

lemma tail_file_other_path:
  assumes "q \<noteq> p"
  shows "snd (tail_file lib fs q (acc, P)) p = P p"
    and "filter (\<lambda>pl. fst pl = p) (fst (tail_file lib fs q (acc, P)))
         = filter (\<lambda>pl. fst pl = p) acc"
    and "tail_file lib fs q (acc, P(p \<mapsto> v))
         = (fst (tail_file lib fs q (acc, P)), (snd (tail_file lib fs q (acc, P)))(p \<mapsto> v))"
  using assms
  by (auto simp: tail_file_def Let_def recorded_offset_def fun_upd_twist
           split: os_result.splits option.splits)

lemma tail_file_truncated:
  assumes "P p = Some off" and "getsize (fs p) = Returns (length content)"
    and "read_all (fs p) = Returns content" and "length content < off"
  shows "tail_file lib fs p (acc, P)
         = (acc @ (if content = [] then []
                   else map (Pair p) (splitlines lib (decode_utf8 lib content))),
            P(p \<mapsto> length content))"
    and "tail_file lib fs p (acc, P(p \<mapsto> 0)) = tail_file lib fs p (acc, P)"
  using assms by (auto simp: tail_file_def Let_def recorded_offset_def)

lemma tail_file_caught_up:
  assumes "P p = Some (length content)" and "getsize (fs p) = Returns (length content)"
  shows "tail_file lib fs p (acc, P) = (acc, P)"
proof -
  from assms(1) have "P(p \<mapsto> length content) = P" by (rule map_upd_triv)
  with assms show ?thesis
    by (simp add: tail_file_def Let_def recorded_offset_def)
qed

lemma fold_tail_file_caught_up:
  assumes "P p = Some (length content)" and "getsize (fs p) = Returns (length content)"
  shows "snd (fold (tail_file lib fs) files (acc, P)) p = Some (length content) \<and>
         filter (\<lambda>pl. fst pl = p) (fst (fold (tail_file lib fs) files (acc, P)))
           = filter (\<lambda>pl. fst pl = p) acc"
  using assms(1)
proof (induction files arbitrary: acc P)
  case Nil
  then show ?case by simp
next
  case (Cons q files)
  show ?case
  proof (cases "q = p")
    case True
    with Cons.prems assms(2) have "tail_file lib fs q (acc, P) = (acc, P)"
      by (simp add: tail_file_caught_up)
    with Cons.IH [where P=P and acc=acc, OF Cons.prems] show ?thesis by simp
  next
    case False
    obtain acc1 P1 where t: "tail_file lib fs q (acc, P) = (acc1, P1)"
      by (cases "tail_file lib fs q (acc, P)")
    from tail_file_other_path(1,2) [OF False, where lib=lib and fs=fs and acc=acc and P=P]
      t Cons.prems
    have "P1 p = Some (length content)"
      and "filter (\<lambda>pl. fst pl = p) acc1 = filter (\<lambda>pl. fst pl = p) acc"
      by simp_all
    with Cons.IH [where P=P1 and acc=acc1] t show ?thesis by simp
  qed
qed

lemma fold_tail_file_truncated:
  assumes "getsize (fs p) = Returns (length content)"
    and "read_all (fs p) = Returns content" and "length content < off"
    and "p \<in> set files" and "P p = Some off"
  shows "snd (fold (tail_file lib fs) files (acc, P)) p = Some (length content) \<and>
         filter (\<lambda>pl. fst pl = p) (fst (fold (tail_file lib fs) files (acc, P)))
           = filter (\<lambda>pl. fst pl = p) acc @
             (if content = [] then []
              else map (Pair p) (splitlines lib (decode_utf8 lib content))) \<and>
         fold (tail_file lib fs) files (acc, P(p \<mapsto> 0)) = fold (tail_file lib fs) files (acc, P)"
  using assms(4,5)
proof (induction files arbitrary: acc P)
  case Nil
  then show ?case by simp
next
  case (Cons q files)
  show ?case
  proof (cases "q = p")
    case True
    let ?L = "if content = [] then []
              else map (Pair p) (splitlines lib (decode_utf8 lib content))"
    let ?P1 = "P(p \<mapsto> length content)"
    note tf = tail_file_truncated [where P=P and p=p and fs=fs and lib=lib and acc=acc,
                OF Cons.prems(2) assms(1,2,3)]
    have "?P1 p = Some (length content)" by simp
    from fold_tail_file_caught_up [where P="?P1" and p=p and fs=fs and lib=lib
           and files=files and acc="acc @ ?L", OF this assms(1)]
    have "snd (fold (tail_file lib fs) files (acc @ ?L, ?P1)) p = Some (length content)"
      and "filter (\<lambda>pl. fst pl = p) (fst (fold (tail_file lib fs) files (acc @ ?L, ?P1)))
           = filter (\<lambda>pl. fst pl = p) (acc @ ?L)"
      by simp_all
    moreover have "filter (\<lambda>pl. fst pl = p) ?L = ?L"
      by (auto simp: filter_map comp_def)
    moreover have "fold (tail_file lib fs) (q # files) (acc, P)
                   = fold (tail_file lib fs) files (acc @ ?L, ?P1)"
      unfolding True by (simp only: fold_simps tf(1))
    moreover have "fold (tail_file lib fs) (q # files) (acc, P(p \<mapsto> 0))
                   = fold (tail_file lib fs) files (acc @ ?L, ?P1)"
      unfolding True by (simp only: fold_simps tf)
    ultimately show ?thesis
      by (simp only: filter_append)
  next
    case False
    obtain acc1 P1 where t: "tail_file lib fs q (acc, P) = (acc1, P1)"
      by (cases "tail_file lib fs q (acc, P)")
    from tail_file_other_path(1,2) [OF False, where lib=lib and fs=fs and acc=acc and P=P]
      tail_file_other_path(3) [OF False, where lib=lib and fs=fs and acc=acc and P=P and v=0]
      t Cons.prems(2)
    have P1: "P1 p = Some off"
      and f1: "filter (\<lambda>pl. fst pl = p) acc1 = filter (\<lambda>pl. fst pl = p) acc"
      and t0: "tail_file lib fs q (acc, P(p \<mapsto> 0)) = (acc1, P1(p \<mapsto> 0))"
      by simp_all
    from Cons.prems(1) False have "p \<in> set files" by simp
    moreover have "fold (tail_file lib fs) (q # files) (acc, P)
                   = fold (tail_file lib fs) files (acc1, P1)"
      by (simp only: fold_simps comp_apply t)
    moreover have "fold (tail_file lib fs) (q # files) (acc, P(p \<mapsto> 0))
                   = fold (tail_file lib fs) files (acc1, P1(p \<mapsto> 0))"
      by (simp only: fold_simps comp_apply t0)
    moreover note Cons.IH [where P=P1 and acc=acc1, OF _ P1]
    ultimately show ?thesis
      by (simp only: f1)
  qed
qed

text \<open>
  C7. Let a tailed file have a recorded offset larger than its current size (it was
  truncated or replaced by a shorter file), and let the poll be able to stat and read it.
  Then the poll behaves exactly as if the recorded offset had been reset to 0 beforehand:
  it returns, for that path, the lines of the whole current content (none when the file
  is empty, which is then not opened), and afterwards the recorded offset is the current
  size.
\<close>

theorem truncated_file_is_reread_from_start:
  assumes "p \<in> set files" and "positions p = Some off"
    and "getsize (fs p) = Returns (length content)"
    and "read_all (fs p) = Returns content"
    and "length content < off"
  shows "read_new_lines lib files fs positions = read_new_lines lib files fs (positions(p \<mapsto> 0)) \<and>
         filter (\<lambda>pl. fst pl = p) (fst (read_new_lines lib files fs positions))
           = (if content = [] then []
              else map (Pair p) (splitlines lib (decode_utf8 lib content))) \<and>
         snd (read_new_lines lib files fs positions) p = Some (length content)"
  using fold_tail_file_truncated [where acc="[]" and lib=lib and fs=fs and p=p and P=positions
          and content=content and off=off and files=files, OF assms(3,4,5,1,2)]
  unfolding read_new_lines_def by simp

theorem truncated_file_is_reread_from_start_witness:
  "tail_positions (projr (run demo_lib [sample_poll [rec_a, rec_b, rec_next] 0] (init_agg 10 72)))
       ''m.jsonl'' = Some (length (file_of_lines [rec_a, rec_b, rec_next])) \<and>
   length (file_of_lines [rec_late]) < length (file_of_lines [rec_a, rec_b, rec_next]) \<and>
   getsize (one_file (file_of_lines [rec_late]) ''m.jsonl'')
     = Returns (length (file_of_lines [rec_late])) \<and>
   read_all (one_file (file_of_lines [rec_late]) ''m.jsonl'')
     = Returns (file_of_lines [rec_late]) \<and>
   fst (read_new_lines demo_lib [''m.jsonl''] (one_file (file_of_lines [rec_late]))
          (tail_positions (projr (run demo_lib [sample_poll [rec_a, rec_b, rec_next] 0]
                                    (init_agg 10 72)))))
     = [(''m.jsonl'', rec_late)] \<and>
   snd (read_new_lines demo_lib [''m.jsonl''] (one_file (file_of_lines [rec_late]))
          (tail_positions (projr (run demo_lib [sample_poll [rec_a, rec_b, rec_next] 0]
                                    (init_agg 10 72)))))
       ''m.jsonl'' = Some (length (file_of_lines [rec_late]))"
proof -
  define P where
    "P = tail_positions (projr (run demo_lib [sample_poll [rec_a, rec_b, rec_next] 0]
                                  (init_agg 10 72)))"
  define old where "old = file_of_lines [rec_a, rec_b, rec_next]"
  define new where "new = file_of_lines [rec_late]"
  have p: "P ''m.jsonl'' = Some (length old)"
    unfolding P_def old_def by (simp add: eval_defs demo_defs)
  have l: "length new < length old"
    unfolding old_def new_def by (simp add: demo_defs)
  have g: "getsize (one_file new ''m.jsonl'') = Returns (length new)"
    and r: "read_all (one_file new ''m.jsonl'') = Returns new"
    by (simp_all add: one_file_def)
  have m: "''m.jsonl'' \<in> set [''m.jsonl'']" by simp
  have ne: "new \<noteq> []" unfolding new_def by (simp add: demo_defs)
  have sp: "splitlines demo_lib (decode_utf8 demo_lib new) = [rec_late]"
    unfolding new_def by (simp add: demo_defs)
  from truncated_file_is_reread_from_start [where lib=demo_lib and fs="one_file new"
         and p="''m.jsonl''" and positions=P and content=new and off="length old"
         and files="[''m.jsonl'']", OF m p g r l, THEN conjunct2]
  have "filter (\<lambda>pl. fst pl = ''m.jsonl'')
          (fst (read_new_lines demo_lib [''m.jsonl''] (one_file new) P))
        = [(''m.jsonl'', rec_late)]"
    and s: "snd (read_new_lines demo_lib [''m.jsonl''] (one_file new) P) ''m.jsonl''
        = Some (length new)"
    using ne sp by simp_all
  moreover have "filter (\<lambda>pl. fst pl = ''m.jsonl'')
          (fst (read_new_lines demo_lib [''m.jsonl''] (one_file new) P))
       = fst (read_new_lines demo_lib [''m.jsonl''] (one_file new) P)"
    by (simp add: read_new_lines_def tail_file_def Let_def g r
             split: os_result.splits)
  ultimately have "fst (read_new_lines demo_lib [''m.jsonl''] (one_file new) P)
        = [(''m.jsonl'', rec_late)]"
    by simp
  with p l g r s show ?thesis
    unfolding P_def old_def new_def by blast
qed

section \<open>The ASCII timeline\<close>

lemma length_chars [simp]: "length chars = 10"
  by (simp add: chars_def)

lemma markers_not_in_ramp: "CHR ''S'' \<notin> set chars" "CHR ''F'' \<notin> set chars"
  by (simp_all add: chars_def)

lemma density_index_div:
  assumes "1 \<le> maxv"
  shows "density_index v maxv = (9 * v) div maxv"
proof -
  have "real (length chars - 1) * (real v / real maxv) = real (9 * v) / real maxv"
    by simp
  moreover have "0 \<le> real (9 * v) / real maxv" by simp
  ultimately have "py_int (real (length chars - 1) * (real v / real maxv))
                   = \<lfloor>real (9 * v) / real maxv\<rfloor>"
    by (simp only: py_int_def if_True)
  also have "\<dots> = int ((9 * v) div maxv)"
    by (rule floor_divide_of_nat_eq)
  finally show ?thesis
    using assms by (simp add: density_index_def)
qed

lemma density_index_le:
  fixes v maxv :: nat
  assumes "1 \<le> maxv" and "v \<le> maxv"
  shows "(9 * v) div maxv \<le> 9"
proof -
  from assms(2) have "9 * v \<le> 9 * maxv" by simp
  then have "(9 * v) div maxv \<le> (9 * maxv) div maxv" by (rule div_le_mono)
  with assms(1) show ?thesis by simp
qed

lemma window_max_ge:
  "1 \<le> window_max data"
  "(b, s, f) \<in> set data \<Longrightarrow> s + f \<le> window_max data"
proof -
  show "1 \<le> window_max data" by (simp add: window_max_def)
  assume "(b, s, f) \<in> set data"
  then have "s + f \<in> set (map (\<lambda>(b, s, f). s + f) data)" by force
  then have "s + f \<le> Max (set (map (\<lambda>(b, s, f). s + f) data))"
    by (intro Max_ge) simp_all
  then show "s + f \<le> window_max data" by (simp add: window_max_def)
qed


text \<open>
  C9, as the specification states it, fails for the all-fail marker: the first row of the chart
  keeps the density glyph of a bucket that has only failures, and the \<open>F\<close> goes to a
  second row, which is left out when \<open>height < 2\<close>. One failed record gives the bucket
  \<open>(1704067200, 0, 1)\<close>; its column shows \<open>@\<close>, the top of the ramp.
\<close>

theorem all_fail_marker_counterexample:
  "timeline (projr (run demo_lib [sample_poll [rec_b] 0] (init_agg 10 72)))
     = [(1704067200, 0, 1)] \<and>
   render_timeline_ascii (projr (run demo_lib [sample_poll [rec_b] 0] (init_agg 10 72))) 5 2
     = ''@   '' @ [CHR 0x0A] @ ''F   '' \<and>
   render_timeline_ascii (projr (run demo_lib [sample_poll [rec_b] 0] (init_agg 10 72))) 5 1
     = ''@   '' \<and>
   chars ! 9 = CHR ''@''"
proof -
  define s where "s = projr (run demo_lib [sample_poll [rec_b] 0] (init_agg 10 72))"
  have t: "timeline s = [(1704067200, 0, 1)]"
    unfolding s_def by (simp add: eval_defs demo_defs)
  have "render_timeline_ascii s 5 2 = ''@   '' @ [CHR 0x0A] @ ''F   ''"
    "render_timeline_ascii s 5 1 = ''@   ''"
    "chars ! 9 = CHR ''@''"
    by (simp_all add: render_timeline_ascii_def t visible_def window_max_def s_glyph_def
          f_glyph_def density_index_def py_int_def ljust_def chars_def Let_def
          numeral_3_eq_3)
  with t show ?thesis unfolding s_def by blast
qed

text \<open>
  C9, amended. For a non-empty timeline \<^verbatim>\<open>render_timeline_ascii\<close> returns a first row and,
  only when \<open>height \<ge> 2\<close>, a second row, each padded to \<open>width - 1\<close>, with one column per
  visible bucket. In the first row a bucket with \<open>success > 0\<close> and \<open>fail = 0\<close> shows the
  marker \<open>S\<close> instead of its density glyph; every other bucket, the all-fail ones
  included, shows the glyph \<open>chars[9 * (s + f) div maxv]\<close> of the fixed 10-level ramp, where
  \<open>maxv\<close> is the largest total in the visible window and at least 1. In the second row a
  bucket with \<open>fail > 0\<close> and \<open>success = 0\<close> shows the marker \<open>F\<close> and every other bucket a
  blank. Neither marker is a glyph of the ramp.
\<close>

theorem ascii_timeline_rows_and_glyphs:
  fixes metrics :: metrics_agg and width height :: int
  defines "data \<equiv> visible (timeline metrics) width"
  defines "maxv \<equiv> window_max data"
  assumes "timeline metrics \<noteq> []"
  shows "render_timeline_ascii metrics width height =
           str_join [CHR 0x0A]
             ([ljust (map (s_glyph maxv) data) (width - 1)] @
              (if 2 \<le> height then [ljust (map f_glyph data) (width - 1)] else [])) \<and>
         (\<forall>(b, s, f) \<in> set data.
            s_glyph maxv (b, s, f)
              = (if 0 < s \<and> f = 0 then CHR ''S'' else chars ! ((9 * (s + f)) div maxv)) \<and>
            s + f \<le> maxv \<and> (9 * (s + f)) div maxv < length chars \<and>
            f_glyph (b, s, f) = (if 0 < f \<and> s = 0 then CHR ''F'' else CHR '' '')) \<and>
         1 \<le> maxv \<and> length chars = 10 \<and> CHR ''S'' \<notin> set chars \<and> CHR ''F'' \<notin> set chars"
proof -
  have m1: "1 \<le> maxv" unfolding maxv_def by (rule window_max_ge(1))
  have "render_timeline_ascii metrics width height =
           str_join [CHR 0x0A]
             ([ljust (map (s_glyph maxv) data) (width - 1)] @
              (if 2 \<le> height then [ljust (map f_glyph data) (width - 1)] else []))"
    using assms(3) unfolding data_def maxv_def
    by (simp add: render_timeline_ascii_def Let_def)
  moreover have "s_glyph maxv (b, s, f)
              = (if 0 < s \<and> f = 0 then CHR ''S'' else chars ! ((9 * (s + f)) div maxv)) \<and>
            s + f \<le> maxv \<and> (9 * (s + f)) div maxv < length chars \<and>
            f_glyph (b, s, f) = (if 0 < f \<and> s = 0 then CHR ''F'' else CHR '' '')"
    if "(b, s, f) \<in> set data" for b s f
  proof -
    from that have le: "s + f \<le> maxv" unfolding maxv_def by (rule window_max_ge(2))
    with m1 have "(9 * (s + f)) div maxv \<le> 9" by (rule density_index_le)
    then have "(9 * (s + f)) div maxv < length chars" by simp
    moreover have "s_glyph maxv (b, s, f)
              = (if 0 < s \<and> f = 0 then CHR ''S'' else chars ! ((9 * (s + f)) div maxv))"
      by (simp add: s_glyph_def density_index_div [OF m1])
    moreover have "f_glyph (b, s, f) = (if 0 < f \<and> s = 0 then CHR ''F'' else CHR '' '')"
      by (simp add: f_glyph_def)
    ultimately show ?thesis using le by blast
  qed
  then have "\<forall>(b, s, f) \<in> set data.
            s_glyph maxv (b, s, f)
              = (if 0 < s \<and> f = 0 then CHR ''S'' else chars ! ((9 * (s + f)) div maxv)) \<and>
            s + f \<le> maxv \<and> (9 * (s + f)) div maxv < length chars \<and>
            f_glyph (b, s, f) = (if 0 < f \<and> s = 0 then CHR ''F'' else CHR '' '')"
    by blast
  ultimately show ?thesis
    using m1 markers_not_in_ramp length_chars by blast
qed

theorem ascii_timeline_rows_and_glyphs_witness:
  "timeline (projr (run demo_lib [sample_poll [rec_a, rec_b, rec_next] 0, EnsureTo 1704067235,
        sample_poll [rec_a, rec_b, rec_next, rec_bare] 1704067226] (init_agg 10 72)))
     = [(1704067200, 1, 1), (1704067210, 1, 0), (1704067220, 0, 1), (1704067230, 0, 0)] \<and>
   render_timeline_ascii
     (projr (run demo_lib [sample_poll [rec_a, rec_b, rec_next] 0, EnsureTo 1704067235,
        sample_poll [rec_a, rec_b, rec_next, rec_bare] 1704067226] (init_agg 10 72))) 7 2
     = ''@S=   '' @ [CHR 0x0A] @ ''  F   '' \<and>
   (1704067220, 0, 1) \<in> set (visible (timeline
     (projr (run demo_lib [sample_poll [rec_a, rec_b, rec_next] 0, EnsureTo 1704067235,
        sample_poll [rec_a, rec_b, rec_next, rec_bare] 1704067226] (init_agg 10 72)))) 7) \<and>
   s_glyph (window_max (visible (timeline
     (projr (run demo_lib [sample_poll [rec_a, rec_b, rec_next] 0, EnsureTo 1704067235,
        sample_poll [rec_a, rec_b, rec_next, rec_bare] 1704067226] (init_agg 10 72)))) 7))
     (1704067220, 0, 1) = CHR ''='' \<and>
   f_glyph (1704067220, 0, 1) = CHR ''F''"
proof -
  define s where "s = projr (run demo_lib [sample_poll [rec_a, rec_b, rec_next] 0,
        EnsureTo 1704067235, sample_poll [rec_a, rec_b, rec_next, rec_bare] 1704067226]
        (init_agg 10 72))"
  let ?tl = "[(1704067200, 1, 1), (1704067210, 1, 0), (1704067220, 0, 1), (1704067230, 0, 0)]
             :: bucket list"
  have t: "timeline s = ?tl"
    unfolding s_def by (simp add: eval_defs demo_defs)
  then have ne: "timeline s \<noteq> []" by simp
  have v: "visible (timeline s) 7 = ?tl"
    unfolding t by (simp add: visible_def)
  have mx: "window_max ?tl = 2"
    by (simp add: window_max_def)
  have mem: "(1704067220, 0, 1) \<in> set (visible (timeline s) 7)"
    unfolding v by simp
  note th = ascii_timeline_rows_and_glyphs [OF ne, of 7 2]
  from th [THEN conjunct2, THEN conjunct1] mem
  have g: "s_glyph (window_max (visible (timeline s) 7)) (1704067220, 0, 1) = CHR ''=''"
    and f: "f_glyph (1704067220, 0, 1) = CHR ''F''"
    unfolding v mx by (auto simp: chars_def)
  from th [THEN conjunct1]
  have "render_timeline_ascii s 7 2 = ''@S=   '' @ [CHR 0x0A] @ ''  F   ''"
    unfolding v mx
    by (simp add: s_glyph_def f_glyph_def density_index_def py_int_def ljust_def chars_def
          numeral_2_eq_2)
  with t mem g f show ?thesis unfolding s_def by blast
qed

end
